theory Spec2Isabelle
  imports Complex_Main
begin

section \<open>JavaScript values used as keys and bound values\<close>

text \<open>
  The key and the bound value of a \<open>WithValue\<close> node have the TypeScript type \<open>any\<close>.
  A number is either \<open>NaN\<close>, an infinity or a finite value; the two zeros are one
  value here, as strict equality does not tell them apart. Objects, arrays, functions
  and symbols carry the identity of the heap object they are.
\<close>

datatype js_number = NaN | PosInfinity | NegInfinity | Finite rat

datatype js_value =
    JUndefined
  | JNull
  | JBoolean bool
  | JNumber js_number
  | JString string
  | JSymbol nat
  | JBigInt int
  | JObject nat
  | JArray nat
  | JFunction nat

text \<open>The operator \<open>typeof\<close>.\<close>

fun typeof :: "js_value \<Rightarrow> string" where
  "typeof JUndefined = ''undefined''"
| "typeof JNull = ''object''"
| "typeof (JBoolean b) = ''boolean''"
| "typeof (JNumber n) = ''number''"
| "typeof (JString s) = ''string''"
| "typeof (JSymbol r) = ''symbol''"
| "typeof (JBigInt i) = ''bigint''"
| "typeof (JObject r) = ''object''"
| "typeof (JArray r) = ''object''"
| "typeof (JFunction r) = ''function''"

text \<open>\<open>key instanceof Array\<close>.\<close>

fun instanceof_Array :: "js_value \<Rightarrow> bool" where
  "instanceof_Array (JArray r) = True"
| "instanceof_Array v = False"

text \<open>
  Strict equality \<open>===\<close>: values of different types are unequal, \<open>NaN\<close> is unequal
  to every number including itself, and objects are compared by identity.
\<close>

fun strict_eq :: "js_value \<Rightarrow> js_value \<Rightarrow> bool" where
  "strict_eq (JNumber a) (JNumber b) = (a \<noteq> NaN \<and> b \<noteq> NaN \<and> a = b)"
| "strict_eq a b = (a = b)"

section \<open>Contexts\<close>

text \<open>
  A cancel signal, a timer and a promise are mutable objects; a context refers to its
  signal by the address of the signal in the store.
\<close>

type_synonym sid = nat
type_synonym tid = nat
type_synonym pid = nat

text \<open>
  The classes implementing the interface \<open>Context\<close>. Every object holds its parent;
  \<open>WithCancel\<close> and its subclass \<open>WithTimeout\<close> hold the signal they created.
\<close>

datatype Context =
    Background
  | WithValue Context js_value js_value
  | WithCancel Context sid
  | WithTimeout Context sid

text \<open>The exception thrown by the constructor of \<open>WithValue\<close>, with its message.\<close>

datatype js_error = Error string

text \<open>The constructor of \<open>WithValue\<close>: \<open>Inl\<close> is the exception thrown.\<close>

definition WithValue_new :: "Context \<Rightarrow> js_value \<Rightarrow> js_value \<Rightarrow> js_error + Context" where
  "WithValue_new parent key val =
     (if key = JUndefined \<or> key = JNull then Inl (Error ''undefined or null key'')
      else if instanceof_Array key then Inl (Error ''array key'')
      else if typeof key = ''object'' then Inl (Error ''object key'')
      else if typeof key = ''function'' then Inl (Error ''function key'')
      else Inr (WithValue parent key val))"

text \<open>
  The method \<open>value\<close>: \<open>Background\<close> returns \<open>null\<close>, \<open>WithValue\<close> compares its own
  key strictly and otherwise asks its parent, the cancelable nodes ask their parent.
\<close>

fun ctx_value :: "Context \<Rightarrow> js_value \<Rightarrow> js_value" where
  "ctx_value Background key = JNull"
| "ctx_value (WithValue parent k v) key =
     (if strict_eq k key then v else ctx_value parent key)"
| "ctx_value (WithCancel parent s) key = ctx_value parent key"
| "ctx_value (WithTimeout parent s) key = ctx_value parent key"

text \<open>The method \<open>done\<close>: the signal to observe, or \<open>null\<close>.\<close>

fun ctx_done :: "Context \<Rightarrow> sid option" where
  "ctx_done Background = None"
| "ctx_done (WithValue parent k v) = ctx_done parent"
| "ctx_done (WithCancel parent s) = Some s"
| "ctx_done (WithTimeout parent s) = Some s"

text \<open>The keys bound on the way from a node to the root, nearest first.\<close>

fun bound_keys :: "Context \<Rightarrow> js_value list" where
  "bound_keys Background = []"
| "bound_keys (WithValue parent k v) = k # bound_keys parent"
| "bound_keys (WithCancel parent s) = bound_keys parent"
| "bound_keys (WithTimeout parent s) = bound_keys parent"

section \<open>Cancel signals, timers and promises\<close>

text \<open>
  The two causes a signal records: instances of the classes \<open>Canceled\<close> and
  \<open>DeadlineExceeded\<close>. The field \<open>_error\<close> of a signal is \<open>Error | null\<close>.
\<close>

datatype cause = Canceled | DeadlineExceeded

text \<open>
  The closures of the source, one constructor for each arrow function, holding the
  variables the closure captures:
  \<^item> \<open>Handler child parentSignal\<close> is \<open>() => this._signal.cancel(parentSignal.error()!)\<close>
    of the constructor of \<open>WithCancel\<close>, where \<open>child\<close> is \<open>this._signal\<close>;
  \<^item> \<open>RemoveHandler parentSignal handler\<close> is
    \<open>() => { parentSignal.removeEventListener("abort", handler) }\<close> of the same constructor;
  \<^item> \<open>ClearTimeout id\<close> is \<open>() => clearTimeout(id)\<close> of the constructor of \<open>WithTimeout\<close>;
  \<^item> \<open>Reject p\<close> is \<open>(reason) => { this.reject(reason) }\<close> of the constructor of
    \<open>ContextPromise\<close>;
  \<^item> \<open>OnCanceled s fn\<close> is \<open>() => fn(this._error)\<close>, the listener that the method
    \<open>onCanceled\<close> of the signal \<open>s\<close> makes of its argument \<open>fn\<close> and registers.
  A listener is found by \<open>removeEventListener\<close> when it is the very function that was
  registered; \<open>OnCanceled s fn\<close> and \<open>fn\<close> are different functions, as they are
  different values here.
\<close>

datatype callback =
    Handler sid sid
  | RemoveHandler sid callback
  | ClearTimeout tid
  | Reject pid
  | OnCanceled sid callback

text \<open>
  What a callback is called with: the event (by the dispatch of \<open>abort\<close>), the field
  \<open>_error\<close> of a signal (by \<open>onCanceled\<close>), or a value of the caller's.
\<close>

datatype reason = EventArg | ErrorArg "cause option" | ValueArg js_value

datatype promise = Pending | Fulfilled js_value | Rejected reason

text \<open>
  A \<open>CancelSignal\<close>: its field \<open>_error\<close>, and of its \<open>AbortController\<close> the flag
  \<open>aborted\<close> and the listeners of the event \<open>abort\<close> in the order of registration.
\<close>

record cancel_signal =
  sig_error :: "cause option"
  sig_aborted :: bool
  sig_listeners :: "callback list"

text \<open>
  A timer made by \<open>setTimeout\<close> in the constructor of \<open>WithTimeout\<close>: its callback is
  \<open>() => this._signal.cancel(new DeadlineExceeded())\<close>, so the timer holds the signal
  and the time it is due; \<open>clearTimeout\<close> and its own expiry disarm it.
\<close>

record timer =
  timer_signal :: sid
  timer_due :: nat
  timer_armed :: bool

text \<open>
  The store: the signals, timers and promises by address (the position in the list, in
  the order of allocation) and the time in milliseconds.
\<close>

record state =
  signals :: "cancel_signal list"
  timers :: "timer list"
  promises :: "promise list"
  clock :: nat

definition init :: state where
  "init = \<lparr>signals = [], timers = [], promises = [], clock = 0\<rparr>"

text \<open>
  Reading a signal. An object reference of the program always points to an object; an
  address outside the store reads as a signal that was never made.
\<close>

definition error_of :: "state \<Rightarrow> sid \<Rightarrow> cause option" where
  "error_of st s = (if s < length (signals st) then sig_error (signals st ! s) else None)"

definition aborted :: "state \<Rightarrow> sid \<Rightarrow> bool" where
  "aborted st s = (s < length (signals st) \<and> sig_aborted (signals st ! s))"

definition listeners :: "state \<Rightarrow> sid \<Rightarrow> callback list" where
  "listeners st s = (if s < length (signals st) then sig_listeners (signals st ! s) else [])"

text \<open>Writing a signal, a timer, a promise (an update outside the store changes nothing).\<close>

definition set_error :: "sid \<Rightarrow> cause option \<Rightarrow> state \<Rightarrow> state" where
  "set_error s e st = st\<lparr>signals := (signals st)[s := (signals st ! s)\<lparr>sig_error := e\<rparr>]\<rparr>"

definition set_aborted :: "sid \<Rightarrow> state \<Rightarrow> state" where
  "set_aborted s st = st\<lparr>signals := (signals st)[s := (signals st ! s)\<lparr>sig_aborted := True\<rparr>]\<rparr>"

text \<open>
  \<open>addEventListener("abort", cb, {once: true})\<close> appends; every listener the source
  registers is a function made for that registration, so none is registered twice.
  \<open>removeEventListener("abort", cb)\<close> removes the listener that is \<open>cb\<close>.
\<close>

definition addEventListener :: "sid \<Rightarrow> callback \<Rightarrow> state \<Rightarrow> state" where
  "addEventListener s cb st =
     st\<lparr>signals := (signals st)[s := (signals st ! s)
        \<lparr>sig_listeners := sig_listeners (signals st ! s) @ [cb]\<rparr>]\<rparr>"

definition removeEventListener :: "sid \<Rightarrow> callback \<Rightarrow> state \<Rightarrow> state" where
  "removeEventListener s cb st =
     st\<lparr>signals := (signals st)[s := (signals st ! s)
        \<lparr>sig_listeners := remove1 cb (sig_listeners (signals st ! s))\<rparr>]\<rparr>"

text \<open>
  \<open>setTimeout(cb, ms)\<close> of the runtime (Deno) takes any number as the duration: a duration
  above \<open>2^31 - 1\<close> is replaced by 1; the duration is then converted to a 32-bit
  integer (\<open>ms | 0\<close>: \<open>NaN\<close> and the infinities give 0, a finite number is truncated
  toward zero and wrapped modulo \<open>2^32\<close> into the signed range), and a negative
  result is replaced by 0. The timer is due that many milliseconds from now.
\<close>

definition to_int32 :: "int \<Rightarrow> int" where
  "to_int32 i = (i + 2147483648) mod 4294967296 - 2147483648"

fun timeout_delay :: "js_number \<Rightarrow> nat" where
  "timeout_delay NaN = 0"
| "timeout_delay PosInfinity = 1"
| "timeout_delay NegInfinity = 0"
| "timeout_delay (Finite r) =
     (if r > 2147483647 then 1
      else nat (max 0 (to_int32 (if r < 0 then \<lceil>r\<rceil> else \<lfloor>r\<rfloor>))))"

definition setTimeout :: "sid \<Rightarrow> js_number \<Rightarrow> state \<Rightarrow> tid \<times> state" where
  "setTimeout s ms st =
     (length (timers st),
      st\<lparr>timers := timers st @
        [\<lparr>timer_signal = s, timer_due = clock st + timeout_delay ms, timer_armed = True\<rparr>]\<rparr>)"

definition clearTimeout :: "tid \<Rightarrow> state \<Rightarrow> state" where
  "clearTimeout t st = st\<lparr>timers := (timers st)[t := (timers st ! t)\<lparr>timer_armed := False\<rparr>]\<rparr>"

text \<open>The functions \<open>resolve\<close> and \<open>reject\<close> of a promise settle it if it is pending.\<close>

definition promise_resolve :: "pid \<Rightarrow> js_value \<Rightarrow> state \<Rightarrow> state" where
  "promise_resolve p v st =
     (if p < length (promises st) \<and> promises st ! p = Pending
      then st\<lparr>promises := (promises st)[p := Fulfilled v]\<rparr> else st)"

definition promise_reject :: "pid \<Rightarrow> reason \<Rightarrow> state \<Rightarrow> state" where
  "promise_reject p r st =
     (if p < length (promises st) \<and> promises st ! p = Pending
      then st\<lparr>promises := (promises st)[p := Rejected r]\<rparr> else st)"

section \<open>Running calls\<close>

text \<open>
  A call of \<open>cancel\<close> runs the listeners of the signal, a listener calls \<open>cancel\<close> on
  a child signal, and so on: the calls still to be made are kept as a list, the next
  one first, so a call made by a callback runs to its end before its caller goes on.
  \<^item> \<open>Cancel s e\<close> is the call \<open>s.cancel(e)\<close>;
  \<^item> \<open>Dispatch s cb\<close> is the turn of the listener \<open>cb\<close> in the dispatch of the event
    \<open>abort\<close> of the signal \<open>s\<close>;
  \<^item> \<open>Invoke cb a\<close> is the call \<open>cb(a)\<close>.
\<close>

datatype call = Cancel sid "cause option" | Dispatch sid callback | Invoke callback reason

text \<open>The measure of the calls still to be made.\<close>

definition unfired :: "state \<Rightarrow> nat" where
  "unfired st = length (filter (\<lambda>g. \<not> sig_aborted g) (signals st))"

fun wrap_depth :: "callback \<Rightarrow> nat" where
  "wrap_depth (OnCanceled s fn) = Suc (wrap_depth fn)"
| "wrap_depth cb = 0"

fun call_weight :: "call \<Rightarrow> nat" where
  "call_weight (Cancel s e) = 1"
| "call_weight (Invoke cb a) = wrap_depth cb + 2"
| "call_weight (Dispatch s cb) = wrap_depth cb + 3"

text \<open>
  \<open>run\<close> makes the calls of the list.
  \<^item> \<open>cancel(error)\<close> is \<open>this._error = error; this._abort.abort()\<close>: the field is
    written whatever the state of the signal; \<open>abort()\<close> of a signal that is aborted
    does nothing, and otherwise sets the flag and dispatches the event to the listeners
    registered at that moment, in their order.
  \<^item> A listener takes its turn if it is still registered; it was registered with
    \<open>once\<close>, so it is removed and then called with the event.
  \<^item> The callbacks do what their bodies say.
\<close>

function run :: "call list \<Rightarrow> state \<Rightarrow> state" where
  "run [] st = st"
| "run (Cancel s e # rest) st =
     (if s < length (signals st) \<and> \<not> aborted st s
      then run (map (Dispatch s) (listeners st s) @ rest) (set_aborted s (set_error s e st))
      else run rest (set_error s e st))"
| "run (Dispatch s cb # rest) st =
     (if cb \<in> set (listeners st s)
      then run (Invoke cb EventArg # rest) (removeEventListener s cb st)
      else run rest st)"
| "run (Invoke (OnCanceled s fn) a # rest) st =
     run (Invoke fn (ErrorArg (error_of st s)) # rest) st"
| "run (Invoke (Handler child parentSignal) a # rest) st =
     run (Cancel child (error_of st parentSignal) # rest) st"
| "run (Invoke (RemoveHandler parentSignal handler) a # rest) st =
     run rest (removeEventListener parentSignal handler st)"
| "run (Invoke (ClearTimeout t) a # rest) st = run rest (clearTimeout t st)"
| "run (Invoke (Reject p) a # rest) st = run rest (promise_reject p a st)"
  by pat_completeness auto
termination
proof -
  have less: "length (filter Q (xs[i := y])) < length (filter Q xs)"
    if "i < length xs" "Q (xs ! i)" "\<not> Q y" for Q :: "cancel_signal \<Rightarrow> bool" and xs i y
    using that
  proof (induction xs arbitrary: i)
    case Nil
    then show ?case by simp
  next
    case (Cons x xs)
    show ?case
    proof (cases i)
      case 0
      with Cons.prems show ?thesis by simp
    next
      case (Suc j)
      with Cons.prems have "length (filter Q (xs[j := y])) < length (filter Q xs)"
        by (intro Cons.IH) simp_all
      with Suc show ?thesis by simp
    qed
  qed
  have same: "length (filter Q (xs[i := y])) = length (filter Q xs)"
    if "Q y = Q (xs ! i)" for Q :: "cancel_signal \<Rightarrow> bool" and xs i y
    using that
  proof (induction xs arbitrary: i)
    case Nil
    then show ?case by simp
  next
    case (Cons x xs)
    then show ?case by (cases i) simp_all
  qed
  have fire: "unfired (set_aborted s (set_error s e st)) < unfired st"
    if "s < length (signals st)" "\<not> aborted st s" for s e st
    using that unfolding unfired_def set_aborted_def set_error_def aborted_def
    by (simp add: less)
  have err: "unfired (set_error s e st) = unfired st" for s e st
    unfolding unfired_def set_error_def by (simp add: same)
  have rem: "unfired (removeEventListener s cb st) = unfired st" for s cb st
    unfolding unfired_def removeEventListener_def by (simp add: same)
  have clr: "unfired (clearTimeout t st) = unfired st" for t st
    unfolding unfired_def clearTimeout_def by simp
  have rej: "unfired (promise_reject p a st) = unfired st" for p a st
    unfolding unfired_def promise_reject_def by simp
  show ?thesis
    by (relation "measures [\<lambda>(w, st). unfired st, \<lambda>(w, st). sum_list (map call_weight w)]")
       (simp_all add: fire err rem clr rej)
qed

section \<open>The classes of the library\<close>

text \<open>The constructor of \<open>CancelSignal\<close> and its methods \<open>cancel\<close> and \<open>onCanceled\<close>.\<close>

definition CancelSignal_new :: "state \<Rightarrow> sid \<times> state" where
  "CancelSignal_new st =
     (length (signals st),
      st\<lparr>signals := signals st @ [\<lparr>sig_error = None, sig_aborted = False, sig_listeners = []\<rparr>]\<rparr>)"

definition CancelSignal_cancel :: "sid \<Rightarrow> cause option \<Rightarrow> state \<Rightarrow> state" where
  "CancelSignal_cancel s e st = run [Cancel s e] st"

definition CancelSignal_onCanceled :: "sid \<Rightarrow> callback \<Rightarrow> state \<Rightarrow> state" where
  "CancelSignal_onCanceled s fn st =
     (if aborted st s then run [Invoke fn (ErrorArg (error_of st s))] st
      else addEventListener s (OnCanceled s fn) st)"

text \<open>
  The body of the constructor of \<open>WithCancel\<close>, which \<open>WithTimeout\<close> runs as
  \<open>super(ctx)\<close>: it returns the address of the new signal.
\<close>

definition WithCancel_init :: "Context \<Rightarrow> state \<Rightarrow> sid \<times> state" where
  "WithCancel_init ctx st =
     (case CancelSignal_new st of (s, st1) \<Rightarrow>
        (case ctx_done ctx of
           None \<Rightarrow> (s, st1)
         | Some parentSignal \<Rightarrow>
             (s, CancelSignal_onCanceled s (RemoveHandler parentSignal (Handler s parentSignal))
                   (CancelSignal_onCanceled parentSignal (Handler s parentSignal) st1))))"

definition WithCancel_new :: "Context \<Rightarrow> state \<Rightarrow> Context \<times> state" where
  "WithCancel_new ctx st = (case WithCancel_init ctx st of (s, st1) \<Rightarrow> (WithCancel ctx s, st1))"

definition WithTimeout_new :: "Context \<Rightarrow> js_number \<Rightarrow> state \<Rightarrow> Context \<times> state" where
  "WithTimeout_new ctx ms st =
     (case WithCancel_init ctx st of (s, st1) \<Rightarrow>
        (case setTimeout s ms st1 of (t, st2) \<Rightarrow>
           (WithTimeout ctx s, CancelSignal_onCanceled s (ClearTimeout t) st2)))"

text \<open>The method \<open>error\<close>.\<close>

fun ctx_error :: "state \<Rightarrow> Context \<Rightarrow> cause option" where
  "ctx_error st Background = None"
| "ctx_error st (WithValue parent k v) = ctx_error st parent"
| "ctx_error st (WithCancel parent s) = error_of st s"
| "ctx_error st (WithTimeout parent s) = error_of st s"

text \<open>
  The method \<open>cancel\<close> of \<open>WithCancel\<close>, inherited by \<open>WithTimeout\<close>. The other
  classes have no such method, and a call on them does not type-check.
\<close>

fun ctx_cancel :: "Context \<Rightarrow> state \<Rightarrow> state" where
  "ctx_cancel (WithCancel parent s) st = CancelSignal_cancel s (Some Canceled) st"
| "ctx_cancel (WithTimeout parent s) st = CancelSignal_cancel s (Some Canceled) st"
| "ctx_cancel c st = st"

text \<open>
  The expiry of a timer: a timer that is still armed is disarmed and its callback
  called. \<open>delay ms\<close> lets \<open>ms\<close> milliseconds pass: the timers due by then expire,
  the earlier one first.
\<close>

definition timer_fire :: "tid \<Rightarrow> state \<Rightarrow> state" where
  "timer_fire t st =
     (if t < length (timers st) \<and> timer_armed (timers st ! t)
      then CancelSignal_cancel (timer_signal (timers st ! t)) (Some DeadlineExceeded) (clearTimeout t st)
      else st)"

definition due_timers :: "state \<Rightarrow> nat \<Rightarrow> tid list" where
  "due_timers st t_end =
     sort_key (\<lambda>t. timer_due (timers st ! t))
       (filter (\<lambda>t. timer_armed (timers st ! t) \<and> timer_due (timers st ! t) \<le> t_end)
          [0..<length (timers st)])"

definition delay :: "nat \<Rightarrow> state \<Rightarrow> state" where
  "delay ms st = (fold timer_fire (due_timers st (clock st + ms)) st)\<lparr>clock := clock st + ms\<rparr>"

text \<open>
  The constructor of \<open>ContextPromise\<close>. The executor is given as the calls of
  \<open>resolve\<close> and \<open>reject\<close> it makes before it returns (none, if it settles the promise
  later or never); the values it passes are not promises themselves.
\<close>

datatype settle = Resolve js_value | RejectWith js_value

fun promise_settle :: "pid \<Rightarrow> settle \<Rightarrow> state \<Rightarrow> state" where
  "promise_settle p (Resolve v) st = promise_resolve p v st"
| "promise_settle p (RejectWith r) st = promise_reject p (ValueArg r) st"

text \<open>What a call of \<open>resolve\<close> or \<open>reject\<close> of the executor makes of a pending promise.\<close>

fun settlement :: "settle \<Rightarrow> promise" where
  "settlement (Resolve v) = Fulfilled v"
| "settlement (RejectWith r) = Rejected (ValueArg r)"

definition Promise_new :: "settle list \<Rightarrow> state \<Rightarrow> pid \<times> state" where
  "Promise_new executor st =
     (length (promises st),
      fold (promise_settle (length (promises st))) executor (st\<lparr>promises := promises st @ [Pending]\<rparr>))"

definition ContextPromise_new :: "Context \<Rightarrow> settle list \<Rightarrow> state \<Rightarrow> pid \<times> state" where
  "ContextPromise_new ctx executor st =
     (case Promise_new executor st of (p, st1) \<Rightarrow>
        (case ctx_done ctx of
           None \<Rightarrow> (p, st1)
         | Some s \<Rightarrow> (p, CancelSignal_onCanceled s (Reject p) st1)))"

text \<open>The two constructors of cancelable nodes as one, by the kind of the node.\<close>

datatype kind = CancelNode | TimeoutNode js_number

fun derive :: "kind \<Rightarrow> Context \<Rightarrow> state \<Rightarrow> Context \<times> state" where
  "derive CancelNode parent st = WithCancel_new parent st"
| "derive (TimeoutNode ms) parent st = WithTimeout_new parent ms st"

text \<open>
  Whether the signal of a context has fired (\<open>ctx.done()?.aborted\<close>), the parent of a
  \<open>WithCancel\<close> or \<open>WithTimeout\<close> node, and the chains of such nodes below a parent,
  each the parent of the next.
\<close>

definition fired :: "state \<Rightarrow> Context \<Rightarrow> bool" where
  "fired st c = (case ctx_done c of None \<Rightarrow> False | Some s \<Rightarrow> aborted st s)"

fun node_parent :: "Context \<Rightarrow> Context option" where
  "node_parent (WithCancel parent s) = Some parent"
| "node_parent (WithTimeout parent s) = Some parent"
| "node_parent c = None"

fun is_chain :: "Context \<Rightarrow> Context list \<Rightarrow> bool" where
  "is_chain parent [] = True"
| "is_chain parent (c # cs) = (node_parent c = Some parent \<and> is_chain c cs)"

text \<open>The parent of a context, and whether a context is a given context or one of its descendants.\<close>

fun ctx_parent :: "Context \<Rightarrow> Context option" where
  "ctx_parent Background = None"
| "ctx_parent (WithValue parent k v) = Some parent"
| "ctx_parent (WithCancel parent s) = Some parent"
| "ctx_parent (WithTimeout parent s) = Some parent"

fun below :: "Context \<Rightarrow> Context \<Rightarrow> bool" where
  "below c Background = (c = Background)"
| "below c (WithValue parent k v) = (c = WithValue parent k v \<or> below c parent)"
| "below c (WithCancel parent s) = (c = WithCancel parent s \<or> below c parent)"
| "below c (WithTimeout parent s) = (c = WithTimeout parent s \<or> below c parent)"

section \<open>Stores the library builds\<close>

text \<open>
  Every listener on a signal \<open>q\<close> was registered by \<open>onCanceled\<close> of \<open>q\<close>, so it is
  \<open>OnCanceled q fn\<close>, and \<open>fn\<close> is one of the four callbacks the library passes: the
  handler of a child whose signal was made later than \<open>q\<close>, the removal of a handler,
  the disarming of a timer, the rejection of a promise that exists. \<open>fn_ok ns np q fn\<close>
  says so of \<open>fn\<close> in a store of \<open>ns\<close> signals and \<open>np\<close> promises.
\<close>

fun is_Handler :: "callback \<Rightarrow> bool" where
  "is_Handler (Handler c p) = True"
| "is_Handler cb = False"

fun fn_ok :: "nat \<Rightarrow> nat \<Rightarrow> sid \<Rightarrow> callback \<Rightarrow> bool" where
  "fn_ok ns np q (Handler c p) = (p = q \<and> q < c \<and> c < ns)"
| "fn_ok ns np q (RemoveHandler p h) = is_Handler h"
| "fn_ok ns np q (ClearTimeout t) = True"
| "fn_ok ns np q (Reject p) = (p < np)"
| "fn_ok ns np q (OnCanceled s fn) = False"

fun listener_ok :: "nat \<Rightarrow> nat \<Rightarrow> sid \<Rightarrow> callback \<Rightarrow> bool" where
  "listener_ok ns np q (OnCanceled s fn) = (s = q \<and> fn_ok ns np q fn)"
| "listener_ok ns np q cb = False"

definition well_formed :: "state \<Rightarrow> bool" where
  "well_formed st =
     list_all (\<lambda>q. list_all (listener_ok (length (signals st)) (length (promises st)) q) (listeners st q))
       [0..<length (signals st)]"

text \<open>The signal of a context, if it has one, is in the store.\<close>

definition ctx_in_store :: "state \<Rightarrow> Context \<Rightarrow> bool" where
  "ctx_in_store st c = (case ctx_done c of None \<Rightarrow> True | Some s \<Rightarrow> s < length (signals st))"

text \<open>A context is live when its signal, if it has one, is in the store and has not fired.\<close>

definition live :: "state \<Rightarrow> Context \<Rightarrow> bool" where
  "live st c = (case ctx_done c of None \<Rightarrow> True | Some s \<Rightarrow> s < length (signals st) \<and> \<not> aborted st s)"

text \<open>The signals a callback cancels when it is called.\<close>

fun cb_targets :: "callback \<Rightarrow> sid list" where
  "cb_targets (Handler c p) = [c]"
| "cb_targets (OnCanceled q fn) = cb_targets fn"
| "cb_targets cb = []"

text \<open>
  The signal \<open>s\<close> is the signal of a node made below \<open>parent\<close>: it is in the store, it
  was made after the signal of the parent, and the only listeners that cancel it are
  registered on the signal of the parent.
\<close>

definition node_ok :: "state \<Rightarrow> Context \<Rightarrow> sid \<Rightarrow> bool" where
  "node_ok st parent s =
     (s < length (signals st)
      \<and> (case ctx_done parent of None \<Rightarrow> True | Some ps \<Rightarrow> ps < s)
      \<and> list_all (\<lambda>q. list_all (\<lambda>cb. s \<in> set (cb_targets cb) \<longrightarrow> ctx_done parent = Some q) (listeners st q))
            [0..<length (signals st)])"

text \<open>
  The node with the signal \<open>s\<close> below \<open>parent\<close> is linked when, unless it has fired,
  the handler that cancels it is registered on the signal of the parent.
\<close>

definition linked :: "state \<Rightarrow> Context \<Rightarrow> sid \<Rightarrow> bool" where
  "linked st parent s =
     (case ctx_done parent of
        None \<Rightarrow> True
      | Some ps \<Rightarrow> aborted st s \<or> OnCanceled ps (Handler s ps) \<in> set (listeners st ps))"

text \<open>A signal that has fired has no listeners left.\<close>

definition cleared :: "state \<Rightarrow> bool" where
  "cleared st = list_all (\<lambda>q. aborted st q \<longrightarrow> listeners st q = []) [0..<length (signals st)]"

section \<open>Cascades\<close>

text \<open>
  While a signal fires with the cause \<open>e\<close>, every call still to be made passes \<open>e\<close> on:
  a call of \<open>cancel\<close> has the argument \<open>e\<close>, a listener or handler reads the error
  of a signal whose error is \<open>e\<close>, a rejection has the reason \<open>e\<close>.
\<close>

fun is_Reject :: "callback \<Rightarrow> bool" where
  "is_Reject (Reject p) = True"
| "is_Reject cb = False"

fun cb_carries :: "cause option \<Rightarrow> state \<Rightarrow> callback \<Rightarrow> bool" where
  "cb_carries e st (OnCanceled q fn) = (error_of st q = e \<and> fn_ok (length (signals st)) (length (promises st)) q fn)"
| "cb_carries e st (Handler c q) = (error_of st q = e \<and> c < length (signals st))"
| "cb_carries e st (RemoveHandler q h) = is_Handler h"
| "cb_carries e st (ClearTimeout t) = True"
| "cb_carries e st (Reject p) = True"

fun call_carries :: "cause option \<Rightarrow> state \<Rightarrow> call \<Rightarrow> bool" where
  "call_carries e st (Cancel c e') = (e' = e \<and> c < length (signals st))"
| "call_carries e st (Dispatch q cb) = (error_of st q = e)"
| "call_carries e st (Invoke cb a) = (cb_carries e st cb \<and> (is_Reject cb \<longrightarrow> a = ErrorArg e))"

definition conf_ok :: "cause option \<Rightarrow> call list \<Rightarrow> state \<Rightarrow> bool" where
  "conf_ok e w st = (well_formed st \<and> (\<forall>call \<in> set w. call_carries e st call))"

text \<open>A signal has fired with the cause \<open>e\<close>.\<close>

definition fired_with :: "cause option \<Rightarrow> state \<Rightarrow> sid \<Rightarrow> bool" where
  "fired_with e st x = (aborted st x \<and> error_of st x = e)"

text \<open>
  The signals that the calls still to be made are going to cancel: those a call
  cancels itself, and those canceled by the listeners of a signal that is going to be
  canceled and has not fired yet.
\<close>

fun call_targets :: "state \<Rightarrow> call \<Rightarrow> sid set" where
  "call_targets st (Cancel c e) = {c}"
| "call_targets st (Dispatch q cb) = (if cb \<in> set (listeners st q) then set (cb_targets cb) else {})"
| "call_targets st (Invoke cb a) = set (cb_targets cb)"

inductive_set need :: "call list \<Rightarrow> state \<Rightarrow> sid set" for w :: "call list" and st :: state where
  root: "call \<in> set w \<Longrightarrow> b \<in> call_targets st call \<Longrightarrow> b \<in> need w st"
| link: "a \<in> need w st \<Longrightarrow> \<not> aborted st a \<Longrightarrow> cb \<in> set (listeners st a)
    \<Longrightarrow> b \<in> set (cb_targets cb) \<Longrightarrow> b \<in> need w st"

text \<open>
  The rejection of the promise \<open>p\<close> bound to the signal \<open>s\<close> is under way: its
  listener is registered and has its turn ahead, or is being called.
\<close>

definition stage_call :: "sid \<Rightarrow> pid \<Rightarrow> cause option \<Rightarrow> state \<Rightarrow> call \<Rightarrow> bool" where
  "stage_call s p e st call =
     ((call = Dispatch s (OnCanceled s (Reject p)) \<and> OnCanceled s (Reject p) \<in> set (listeners st s))
      \<or> (\<exists>a. call = Invoke (OnCanceled s (Reject p)) a)
      \<or> call = Invoke (Reject p) (ErrorArg e))"

definition settles :: "sid \<Rightarrow> pid \<Rightarrow> cause option \<Rightarrow> call list \<Rightarrow> state \<Rightarrow> bool" where
  "settles s p e w st =
     (p < length (promises st)
      \<and> (promises st ! p = Rejected (ErrorArg e)
         \<or> (promises st ! p = Pending \<and> (\<exists>call \<in> set w. stage_call s p e st call))))"

text \<open>
  The signals a call of \<open>cancel\<close> on the signal \<open>c\<close> can reach: \<open>c\<close>, and the signals
  canceled by the listeners of a signal it can reach.
\<close>

inductive_set reach :: "state \<Rightarrow> sid \<Rightarrow> sid set" for st :: state and c :: sid where
  self: "c \<in> reach st c"
| step: "a \<in> reach st c \<Longrightarrow> cb \<in> set (listeners st a) \<Longrightarrow> b \<in> set (cb_targets cb) \<Longrightarrow> b \<in> reach st c"

text \<open>The signals a call cancels when it is made, whatever is still registered.\<close>

fun call_scope :: "call \<Rightarrow> sid set" where
  "call_scope (Cancel c e) = {c}"
| "call_scope (Dispatch q cb) = set (cb_targets cb)"
| "call_scope (Invoke cb a) = set (cb_targets cb)"

text \<open>
  A set of signals is closed when the listeners of its members cancel members only;
  a list of calls is in the set when the calls cancel members only.
\<close>

definition closed_under :: "state \<Rightarrow> sid set \<Rightarrow> bool" where
  "closed_under st S = (\<forall>a cb b. a \<in> S \<and> cb \<in> set (listeners st a) \<and> b \<in> set (cb_targets cb) \<longrightarrow> b \<in> S)"

definition calls_in :: "sid set \<Rightarrow> call list \<Rightarrow> bool" where
  "calls_in S w = (\<forall>call b. call \<in> set w \<and> b \<in> call_scope call \<longrightarrow> b \<in> S)"

text \<open>
  A promise \<open>p\<close> bound to the signal \<open>s\<close>. The only listeners that reject \<open>p\<close> are
  registered on \<open>s\<close> (\<open>sole\<close>); while the promise is pending, \<open>s\<close> has not fired and
  the listener \<open>(reason) => this.reject(reason)\<close> is registered on it (\<open>bound\<close>). A call
  is quiet when it neither dispatches a listener of \<open>s\<close> nor rejects \<open>p\<close>. The promise
  waits when it is bound and pending; it is rejected by the cause \<open>e\<close> when \<open>s\<close> has
  fired with \<open>e\<close> and the promise is rejected with \<open>e\<close>.
\<close>

fun rejects :: "pid \<Rightarrow> callback \<Rightarrow> bool" where
  "rejects p (Reject p') = (p' = p)"
| "rejects p (OnCanceled q fn) = rejects p fn"
| "rejects p cb = False"

fun call_quiet :: "sid \<Rightarrow> pid \<Rightarrow> call \<Rightarrow> bool" where
  "call_quiet s p (Cancel c e) = True"
| "call_quiet s p (Dispatch q cb) = (q \<noteq> s \<and> \<not> rejects p cb)"
| "call_quiet s p (Invoke cb a) = (\<not> rejects p cb)"

definition sole :: "state \<Rightarrow> sid \<Rightarrow> pid \<Rightarrow> bool" where
  "sole st s p =
     (p < length (promises st) \<and> s < length (signals st)
      \<and> list_all (\<lambda>q. list_all (\<lambda>cb. rejects p cb \<longrightarrow> q = s) (listeners st q))
            [0..<length (signals st)])"

definition bound :: "state \<Rightarrow> sid \<Rightarrow> pid \<Rightarrow> bool" where
  "bound st s p =
     (sole st s p
      \<and> (promises st ! p = Pending \<longrightarrow>
            \<not> aborted st s \<and> OnCanceled s (Reject p) \<in> set (listeners st s)))"

definition waits :: "state \<Rightarrow> sid \<Rightarrow> pid \<Rightarrow> bool" where
  "waits st s p = (bound st s p \<and> promises st ! p = Pending)"

definition rejected_by :: "cause option \<Rightarrow> state \<Rightarrow> sid \<Rightarrow> pid \<Rightarrow> bool" where
  "rejected_by e st s p =
     (sole st s p \<and> aborted st s \<and> error_of st s = e \<and> promises st ! p = Rejected (ErrorArg e))"

section \<open>Programs\<close>

text \<open>
  A program that uses the library is a sequence of operations: it makes nodes below
  the contexts it has (referred to by their position in the list of the contexts made
  so far, \<open>Background\<close> first), calls \<open>cancel\<close>, waits while a number of milliseconds
  pass (the timers due by then expire), makes promises bound to a context, and resolves
  or rejects them. The listeners on a signal are those the library registers. An
  operation on a context or a promise that has not been made, like a \<open>WithValue\<close> whose
  key is refused, leaves everything as it is.
\<close>

datatype op =
    NewValue nat js_value js_value
  | NewCancel nat
  | NewTimeout nat js_number
  | CallCancel nat
  | Wait nat
  | NewPromise nat "settle list"
  | CallResolve pid js_value
  | CallReject pid js_value

fun step :: "op \<Rightarrow> Context list \<times> state \<Rightarrow> Context list \<times> state" where
  "step (NewValue i k v) (cs, st) =
     (if i < length cs
      then (case WithValue_new (cs ! i) k v of Inl e \<Rightarrow> (cs, st) | Inr c \<Rightarrow> (cs @ [c], st))
      else (cs, st))"
| "step (NewCancel i) (cs, st) =
     (if i < length cs
      then (case WithCancel_new (cs ! i) st of (c, st1) \<Rightarrow> (cs @ [c], st1))
      else (cs, st))"
| "step (NewTimeout i ms) (cs, st) =
     (if i < length cs
      then (case WithTimeout_new (cs ! i) ms st of (c, st1) \<Rightarrow> (cs @ [c], st1))
      else (cs, st))"
| "step (CallCancel i) (cs, st) = (if i < length cs then (cs, ctx_cancel (cs ! i) st) else (cs, st))"
| "step (Wait ms) (cs, st) = (cs, delay ms st)"
| "step (NewPromise i executor) (cs, st) =
     (if i < length cs then (cs, snd (ContextPromise_new (cs ! i) executor st)) else (cs, st))"
| "step (CallResolve p v) (cs, st) = (cs, promise_resolve p v st)"
| "step (CallReject p r) (cs, st) = (cs, promise_reject p (ValueArg r) st)"

definition exec :: "op list \<Rightarrow> Context list \<times> state" where
  "exec ops = fold step ops ([Background], init)"

text \<open>The signal a node made, as opposed to the signal it shows as \<open>done()\<close>.\<close>

fun own_signal :: "Context \<Rightarrow> sid option" where
  "own_signal (WithCancel parent s) = Some s"
| "own_signal (WithTimeout parent s) = Some s"
| "own_signal c = None"

text \<open>
  What holds of the contexts and the store of a program: the store is well-formed,
  every context is in the store, every node is the node it was made as and is linked,
  and different nodes have different signals.
\<close>

fun ctx_ok :: "state \<Rightarrow> Context \<Rightarrow> bool" where
  "ctx_ok st (WithCancel parent s) = (node_ok st parent s \<and> linked st parent s)"
| "ctx_ok st (WithTimeout parent s) = (node_ok st parent s \<and> linked st parent s)"
| "ctx_ok st c = ctx_in_store st c"

definition world_ok :: "Context list \<times> state \<Rightarrow> bool" where
  "world_ok w =
     (well_formed (snd w)
      \<and> (\<forall>c \<in> set (fst w). ctx_ok (snd w) c)
      \<and> (\<forall>i < length (fst w). \<forall>j < length (fst w).
            own_signal (fst w ! i) \<noteq> None \<and> own_signal (fst w ! i) = own_signal (fst w ! j) \<longrightarrow> i = j))"

text \<open>
  Further, no fired signal has a listener left, and the parent of every context made
  has been made.
\<close>

definition parents_made :: "Context list \<Rightarrow> bool" where
  "parents_made cs = list_all (\<lambda>c. case ctx_parent c of None \<Rightarrow> True | Some p \<Rightarrow> p \<in> set cs) cs"

definition world_tidy :: "Context list \<times> state \<Rightarrow> bool" where
  "world_tidy w = (cleared (snd w) \<and> parents_made (fst w))"

section \<open>Scenarios\<close>

text \<open>A \<open>WithCancel\<close> node below \<open>Background\<close> that has been canceled.\<close>

definition fired_parent :: state where
  "fired_parent = ctx_cancel (WithCancel Background 0) (snd (WithCancel_new Background init))"

text \<open>The program that makes one \<open>WithCancel\<close> node, and the one that then cancels it.\<close>

definition lone :: "op list" where
  "lone = [NewCancel 0]"

definition canceled :: "op list" where
  "canceled = [NewCancel 0, CallCancel 1]"

text \<open>
  The program that makes a \<open>WithCancel\<close> parent (signal 0) with a \<open>WithCancel\<close> child
  (signal 1) and a \<open>WithTimeout\<close> child (signal 2), and a child of the first child
  (signal 3).
\<close>

definition family :: "op list" where
  "family = [NewCancel 0, NewCancel 1, NewTimeout 1 (Finite 40), NewCancel 2]"

text \<open>
  The program that makes a chain of three nodes below \<open>Background\<close> (signals 0, 1
  and 2, the middle one with a deadline of 5 ms) and a second child of the first
  (signal 3), cancels that child, and waits for 2 ms.
\<close>

definition tree :: "op list" where
  "tree = [NewCancel 0, NewTimeout 1 (Finite 5), NewCancel 2, NewCancel 1, CallCancel 4, Wait 2]"

text \<open>
  The program that makes a \<open>WithTimeout\<close> node of 5 ms with a \<open>WithCancel\<close> child and
  waits for 10 ms, and the program that makes a \<open>WithCancel\<close> node with one child.
\<close>

definition late :: "op list" where
  "late = [NewTimeout 0 (Finite 5), NewCancel 1, Wait 10]"

definition pair :: "op list" where
  "pair = [NewCancel 0, NewCancel 1]"

text \<open>The program that makes a \<open>WithTimeout\<close> node of 5 ms with a \<open>WithCancel\<close> child.\<close>

definition timed :: "op list" where
  "timed = [NewTimeout 0 (Finite 5), NewCancel 1]"

section \<open>Value lookup\<close>

lemma strict_eq_NaN_right: "strict_eq k (JNumber NaN) = False"
  by (cases k) auto

lemma strict_eq_refl_iff: "strict_eq k k = (k \<noteq> JNumber NaN)"
  by (cases k) auto

lemma strict_eq_imp_eq: "strict_eq k key \<Longrightarrow> k = key"
  by (cases k; cases key) auto

lemma ctx_value_not_bound: "key \<notin> set (bound_keys c) \<Longrightarrow> ctx_value c key = JNull"
  by (induction c) (auto dest: strict_eq_imp_eq)

lemma ctx_value_NaN: "ctx_value c (JNumber NaN) = JNull"
  by (induction c) (auto simp: strict_eq_NaN_right)

lemma WithValue_new_Inr: "WithValue_new p k v = Inr c \<Longrightarrow> c = WithValue p k v"
  by (auto simp: WithValue_new_def split: if_splits)

text \<open>
  C5, as stated, at the key \<open>NaN\<close>: both constructions succeed, and looking \<open>NaN\<close> up
  at the tail node returns \<open>null\<close>, not the value bound there.
\<close>

theorem C5_shadowing_fails_for_NaN:
  "WithValue_new Background (JNumber NaN) (JString ''v1'')
     = Inr (WithValue Background (JNumber NaN) (JString ''v1''))
   \<and> WithValue_new (WithValue Background (JNumber NaN) (JString ''v1'')) (JNumber NaN) (JString ''v2'')
     = Inr (WithValue (WithValue Background (JNumber NaN) (JString ''v1'')) (JNumber NaN) (JString ''v2''))
   \<and> ctx_value (WithValue (WithValue Background (JNumber NaN) (JString ''v1'')) (JNumber NaN) (JString ''v2''))
         (JNumber NaN) = JNull
   \<and> ctx_value (WithValue (WithValue Background (JNumber NaN) (JString ''v1'')) (JNumber NaN) (JString ''v2''))
         (JNumber NaN) \<noteq> JString ''v2''"
  by (simp add: WithValue_new_def)

text \<open>
  C5, amended: for every key \<open>K\<close> other than \<open>NaN\<close>, in the chain
  \<open>Background \<rightarrow> WithValue(K, V1) \<rightarrow> WithValue(K, V2)\<close> the lookup of \<open>K\<close> returns \<open>V2\<close> at the
  tail node and \<open>V1\<close> at the middle node; and in every chain, at every node, the lookup
  of a key that no node from there to the root binds returns \<open>null\<close>.
\<close>

theorem C5_shadowing:
  assumes "WithValue_new Background K V1 = Inr middle"
    and "WithValue_new middle K V2 = Inr tail"
    and "K \<noteq> JNumber NaN"
  shows "ctx_value tail K = V2 \<and> ctx_value middle K = V1
    \<and> (\<forall>c key. key \<notin> set (bound_keys c) \<longrightarrow> ctx_value c key = JNull)"
proof -
  have m: "middle = WithValue Background K V1"
    using assms(1) by (rule WithValue_new_Inr)
  have t: "tail = WithValue middle K V2"
    using assms(2) by (rule WithValue_new_Inr)
  have "strict_eq K K"
    using assms(3) by (simp add: strict_eq_refl_iff)
  then show ?thesis
    by (simp add: m t ctx_value_not_bound)
qed

theorem C5_shadowing_witness:
  "ctx_value (WithValue (WithValue Background (JString ''k'') (JNumber (Finite 1))) (JString ''k'') (JNumber (Finite 2)))
     (JString ''k'') = JNumber (Finite 2)
   \<and> ctx_value (WithValue Background (JString ''k'') (JNumber (Finite 1))) (JString ''k'') = JNumber (Finite 1)
   \<and> ctx_value (WithValue Background (JString ''k'') (JNumber (Finite 1))) (JString ''other'') = JNull"
proof -
  have a: "WithValue_new Background (JString ''k'') (JNumber (Finite 1))
      = Inr (WithValue Background (JString ''k'') (JNumber (Finite 1)))"
    by (simp add: WithValue_new_def)
  have b: "WithValue_new (WithValue Background (JString ''k'') (JNumber (Finite 1))) (JString ''k'') (JNumber (Finite 2))
      = Inr (WithValue (WithValue Background (JString ''k'') (JNumber (Finite 1))) (JString ''k'') (JNumber (Finite 2)))"
    by (simp add: WithValue_new_def)
  have c: "JString ''k'' \<noteq> JNumber NaN"
    by simp
  have d: "JString ''other'' \<notin> set (bound_keys (WithValue Background (JString ''k'') (JNumber (Finite 1))))"
    by simp
  from C5_shadowing [OF a b c] d show ?thesis
    by blast
qed

text \<open>
  C6: the constructor of \<open>WithValue\<close> throws, and returns no node, exactly when the key
  is \<open>undefined\<close>, \<open>null\<close>, an object, an array or a function; for every string, number
  and boolean key it returns the node, the keys \<open>0\<close>, the empty string and \<open>false\<close>
  included. The methods of a node are total functions whose results hold no exception.
\<close>

theorem C6_invalid_key:
  "(\<exists>e. WithValue_new p k v = Inl e)
     = (k = JUndefined \<or> k = JNull \<or> (\<exists>r. k = JObject r) \<or> (\<exists>r. k = JArray r) \<or> (\<exists>r. k = JFunction r))
   \<and> ((\<exists>e. WithValue_new p k v = Inl e) \<or> WithValue_new p k v = Inr (WithValue p k v))
   \<and> WithValue_new p (JString s) v = Inr (WithValue p (JString s) v)
   \<and> WithValue_new p (JNumber n) v = Inr (WithValue p (JNumber n) v)
   \<and> WithValue_new p (JBoolean b) v = Inr (WithValue p (JBoolean b) v)
   \<and> WithValue_new p (JNumber (Finite 0)) v = Inr (WithValue p (JNumber (Finite 0)) v)
   \<and> WithValue_new p (JString []) v = Inr (WithValue p (JString []) v)
   \<and> WithValue_new p (JBoolean False) v = Inr (WithValue p (JBoolean False) v)"
  by (cases k) (simp_all add: WithValue_new_def)

text \<open>
  C10: the key \<open>NaN\<close> is a number and passes construction; a node bound to \<open>NaN\<close>
  answers the lookup of \<open>NaN\<close> with its parent's answer, and in every chain the lookup
  of \<open>NaN\<close> returns \<open>null\<close>, whatever is bound to \<open>NaN\<close> on the way.
\<close>

theorem C10_NaN_key_never_matches:
  "typeof (JNumber NaN) = ''number''
   \<and> WithValue_new parent (JNumber NaN) v = Inr (WithValue parent (JNumber NaN) v)
   \<and> strict_eq (JNumber NaN) (JNumber NaN) = False
   \<and> ctx_value (WithValue parent (JNumber NaN) v) (JNumber NaN) = ctx_value parent (JNumber NaN)
   \<and> ctx_value c (JNumber NaN) = JNull"
  by (simp add: WithValue_new_def ctx_value_NaN)

section \<open>Reading the store after a write\<close>

lemma timeout_delay_examples:
  "timeout_delay (Finite 20) = 20"
  "timeout_delay (Finite 2147483647) = 2147483647"
  "timeout_delay (Finite 2147483648) = 1"
  "timeout_delay (Finite (- 3)) = 0"
  "timeout_delay (Finite (- 4294967291)) = 5"
  by (simp_all add: to_int32_def)

lemma timeout_delay_fraction: "timeout_delay (Finite (5 / 2)) = 2"
  by code_simp

lemma nth_list_update_total:
  "xs[i := y] ! j = (if i = j \<and> i < length xs then y else xs ! j)"
  by (cases "i < length xs") (auto simp: nth_list_update list_update_beyond)

lemma length_signals_upd [simp]:
  "length (signals (set_error s e st)) = length (signals st)"
  "length (signals (set_aborted s st)) = length (signals st)"
  "length (signals (addEventListener s cb st)) = length (signals st)"
  "length (signals (removeEventListener s cb st)) = length (signals st)"
  "length (signals (clearTimeout t st)) = length (signals st)"
  "length (signals (promise_reject p r st)) = length (signals st)"
  "length (signals (promise_resolve p v st)) = length (signals st)"
  by (simp_all add: set_error_def set_aborted_def addEventListener_def removeEventListener_def
      clearTimeout_def promise_reject_def promise_resolve_def)

lemma error_of_upd [simp]:
  "error_of (set_error s e st) x = (if x = s \<and> s < length (signals st) then e else error_of st x)"
  "error_of (set_aborted s st) x = error_of st x"
  "error_of (addEventListener s cb st) x = error_of st x"
  "error_of (removeEventListener s cb st) x = error_of st x"
  "error_of (clearTimeout t st) x = error_of st x"
  "error_of (promise_reject p r st) x = error_of st x"
  "error_of (promise_resolve p v st) x = error_of st x"
  by (auto simp: error_of_def set_error_def set_aborted_def addEventListener_def
      removeEventListener_def clearTimeout_def promise_reject_def promise_resolve_def nth_list_update_total)

lemma aborted_upd [simp]:
  "aborted (set_error s e st) x = aborted st x"
  "aborted (set_aborted s st) x = (aborted st x \<or> (x = s \<and> s < length (signals st)))"
  "aborted (addEventListener s cb st) x = aborted st x"
  "aborted (removeEventListener s cb st) x = aborted st x"
  "aborted (clearTimeout t st) x = aborted st x"
  "aborted (promise_reject p r st) x = aborted st x"
  "aborted (promise_resolve p v st) x = aborted st x"
  by (auto simp: aborted_def set_error_def set_aborted_def addEventListener_def
      removeEventListener_def clearTimeout_def promise_reject_def promise_resolve_def nth_list_update_total)

lemma listeners_upd [simp]:
  "listeners (set_error s e st) x = listeners st x"
  "listeners (set_aborted s st) x = listeners st x"
  "listeners (addEventListener s cb st) x =
     (if x = s \<and> s < length (signals st) then listeners st s @ [cb] else listeners st x)"
  "listeners (removeEventListener s cb st) x =
     (if x = s then remove1 cb (listeners st s) else listeners st x)"
  "listeners (clearTimeout t st) x = listeners st x"
  "listeners (promise_reject p r st) x = listeners st x"
  "listeners (promise_resolve p v st) x = listeners st x"
  by (auto simp: listeners_def set_error_def set_aborted_def addEventListener_def
      removeEventListener_def clearTimeout_def promise_reject_def promise_resolve_def nth_list_update_total)

lemma timers_upd [simp]:
  "timers (set_error s e st) = timers st"
  "timers (set_aborted s st) = timers st"
  "timers (addEventListener s cb st) = timers st"
  "timers (removeEventListener s cb st) = timers st"
  "timers (promise_reject p r st) = timers st"
  "timers (promise_resolve p v st) = timers st"
  "length (timers (clearTimeout t st)) = length (timers st)"
  by (simp_all add: set_error_def set_aborted_def addEventListener_def removeEventListener_def
      clearTimeout_def promise_reject_def promise_resolve_def)

lemma promises_upd [simp]:
  "promises (set_error s e st) = promises st"
  "promises (set_aborted s st) = promises st"
  "promises (addEventListener s cb st) = promises st"
  "promises (removeEventListener s cb st) = promises st"
  "promises (clearTimeout t st) = promises st"
  "length (promises (promise_reject p r st)) = length (promises st)"
  "length (promises (promise_resolve p v st)) = length (promises st)"
  by (simp_all add: set_error_def set_aborted_def addEventListener_def removeEventListener_def
      clearTimeout_def promise_reject_def promise_resolve_def)

lemma clock_upd [simp]:
  "clock (set_error s e st) = clock st"
  "clock (set_aborted s st) = clock st"
  "clock (addEventListener s cb st) = clock st"
  "clock (removeEventListener s cb st) = clock st"
  "clock (clearTimeout t st) = clock st"
  "clock (promise_reject p r st) = clock st"
  "clock (promise_resolve p v st) = clock st"
  by (simp_all add: set_error_def set_aborted_def addEventListener_def removeEventListener_def
      clearTimeout_def promise_reject_def promise_resolve_def)

section \<open>Properties of run\<close>

lemma run_append: "run (xs @ ys) st = run ys (run xs st)"
  by (induction xs st rule: run.induct) simp_all

lemma run_Cons: "run (x # xs) st = run xs (run [x] st)"
  using run_append [of "[x]" xs st] by simp

lemma length_signals_run [simp]: "length (signals (run w st)) = length (signals st)"
  by (induction w st rule: run.induct) simp_all

lemma length_timers_run [simp]: "length (timers (run w st)) = length (timers st)"
  by (induction w st rule: run.induct) simp_all

lemma length_promises_run [simp]: "length (promises (run w st)) = length (promises st)"
  by (induction w st rule: run.induct) simp_all

lemma clock_run [simp]: "clock (run w st) = clock st"
  by (induction w st rule: run.induct) simp_all

lemma aborted_run: "aborted st x \<Longrightarrow> aborted (run w st) x"
  by (induction w st rule: run.induct) simp_all

lemma listeners_run: "set (listeners (run w st) x) \<subseteq> set (listeners st x)"
proof (induction w st rule: run.induct)
  case (3 s cb rest st)
  then show ?case
    using set_remove1_subset [of cb "listeners st s"] by (fastforce split: if_splits)
next
  case (6 parentSignal handler a rest st)
  then show ?case
    using set_remove1_subset [of handler "listeners st parentSignal"] by (fastforce split: if_splits)
qed simp_all



section \<open>Allocation\<close>

lemma CancelSignal_new_fst [simp]: "fst (CancelSignal_new st) = length (signals st)"
  by (simp add: CancelSignal_new_def)

lemma CancelSignal_new_snd [simp]:
  "length (signals (snd (CancelSignal_new st))) = Suc (length (signals st))"
  "error_of (snd (CancelSignal_new st)) x = error_of st x"
  "aborted (snd (CancelSignal_new st)) x = aborted st x"
  "listeners (snd (CancelSignal_new st)) x = listeners st x"
  "timers (snd (CancelSignal_new st)) = timers st"
  "promises (snd (CancelSignal_new st)) = promises st"
  "clock (snd (CancelSignal_new st)) = clock st"
  by (auto simp: CancelSignal_new_def error_of_def aborted_def listeners_def nth_append)

lemma setTimeout_fst [simp]: "fst (setTimeout s ms st) = length (timers st)"
  by (simp add: setTimeout_def)

lemma setTimeout_snd [simp]:
  "signals (snd (setTimeout s ms st)) = signals st"
  "error_of (snd (setTimeout s ms st)) x = error_of st x"
  "aborted (snd (setTimeout s ms st)) x = aborted st x"
  "listeners (snd (setTimeout s ms st)) x = listeners st x"
  "length (timers (snd (setTimeout s ms st))) = Suc (length (timers st))"
  "promises (snd (setTimeout s ms st)) = promises st"
  "clock (snd (setTimeout s ms st)) = clock st"
  by (auto simp: setTimeout_def error_of_def aborted_def listeners_def)

lemma ctx_error_done: "ctx_done c = Some s \<Longrightarrow> ctx_error st c = error_of st s"
  by (induction c) auto

lemma ctx_error_no_signal: "ctx_done c = None \<Longrightarrow> ctx_error st c = None"
  by (induction c) auto

lemma unallocated [simp]:
  "listeners st (length (signals st)) = []"
  "\<not> aborted st (length (signals st))"
  "error_of st (length (signals st)) = None"
  by (simp_all add: listeners_def aborted_def error_of_def)

lemma aborted_length: "aborted st s \<Longrightarrow> s < length (signals st)"
  by (simp add: aborted_def)

section \<open>Born canceled\<close>

lemma WithCancel_init_fired:
  assumes "ctx_done parent = Some ps" and "aborted st ps"
  shows "fst (WithCancel_init parent st) = length (signals st)"
    and "aborted (snd (WithCancel_init parent st)) (length (signals st))"
    and "error_of (snd (WithCancel_init parent st)) (length (signals st)) = error_of st ps"
    and "error_of (snd (WithCancel_init parent st)) ps = error_of st ps"
    and "listeners (snd (WithCancel_init parent st)) (length (signals st)) = []"
    and "timers (snd (WithCancel_init parent st)) = timers st"
proof -
  have ps: "ps < length (signals st)"
    using assms(2) by (rule aborted_length)
  show "fst (WithCancel_init parent st) = length (signals st)"
    by (simp add: WithCancel_init_def split_beta split: option.split)
  show "aborted (snd (WithCancel_init parent st)) (length (signals st))"
    using assms ps
    by (simp add: WithCancel_init_def split_beta CancelSignal_onCanceled_def)
  show "error_of (snd (WithCancel_init parent st)) (length (signals st)) = error_of st ps"
    using assms ps
    by (simp add: WithCancel_init_def split_beta CancelSignal_onCanceled_def)
  show "error_of (snd (WithCancel_init parent st)) ps = error_of st ps"
    using assms ps
    by (simp add: WithCancel_init_def split_beta CancelSignal_onCanceled_def)
  show "listeners (snd (WithCancel_init parent st)) (length (signals st)) = []"
    using assms ps
    by (simp add: WithCancel_init_def split_beta CancelSignal_onCanceled_def)
  show "timers (snd (WithCancel_init parent st)) = timers st"
    using assms ps
    by (simp add: WithCancel_init_def split_beta CancelSignal_onCanceled_def)
qed


lemma timer_armed_clearTimeout:
  "t < length (timers st) \<Longrightarrow> \<not> timer_armed (timers (clearTimeout t st) ! t)"
  by (simp add: clearTimeout_def)

text \<open>
  C9: a \<open>WithCancel\<close> or \<open>WithTimeout\<close> node constructed over a parent whose signal has
  fired is canceled when its constructor returns: its signal is aborted and its
  \<open>error()\<close> is the cause the parent recorded (which the construction leaves as it
  was); the timer of such a \<open>WithTimeout\<close> node is disarmed at once.
\<close>

theorem C9_born_canceled:
  assumes "ctx_done parent = Some ps" and "aborted st ps"
  shows "ctx_done (fst (WithCancel_new parent st)) = Some (length (signals st))
    \<and> aborted (snd (WithCancel_new parent st)) (length (signals st))
    \<and> ctx_error (snd (WithCancel_new parent st)) (fst (WithCancel_new parent st)) = ctx_error st parent
    \<and> ctx_error (snd (WithCancel_new parent st)) parent = ctx_error st parent
    \<and> ctx_done (fst (WithTimeout_new parent ms st)) = Some (length (signals st))
    \<and> aborted (snd (WithTimeout_new parent ms st)) (length (signals st))
    \<and> ctx_error (snd (WithTimeout_new parent ms st)) (fst (WithTimeout_new parent ms st)) = ctx_error st parent
    \<and> ctx_error (snd (WithTimeout_new parent ms st)) parent = ctx_error st parent
    \<and> \<not> timer_armed (timers (snd (WithTimeout_new parent ms st)) ! length (timers st))"
proof -
  note init = WithCancel_init_fired [OF assms]
  have par: "ctx_error st' parent = error_of st' ps" for st'
    using assms(1) by (rule ctx_error_done)
  have c: "ctx_done (fst (WithCancel_new parent st)) = Some (length (signals st))
    \<and> aborted (snd (WithCancel_new parent st)) (length (signals st))
    \<and> ctx_error (snd (WithCancel_new parent st)) (fst (WithCancel_new parent st)) = ctx_error st parent
    \<and> ctx_error (snd (WithCancel_new parent st)) parent = ctx_error st parent"
    using init by (simp add: WithCancel_new_def split_beta par)
  have fired: "aborted (snd (setTimeout (length (signals st)) ms (snd (WithCancel_init parent st))))
      (length (signals st))"
    using init by simp
  have t: "ctx_done (fst (WithTimeout_new parent ms st)) = Some (length (signals st))
    \<and> aborted (snd (WithTimeout_new parent ms st)) (length (signals st))
    \<and> ctx_error (snd (WithTimeout_new parent ms st)) (fst (WithTimeout_new parent ms st)) = ctx_error st parent
    \<and> ctx_error (snd (WithTimeout_new parent ms st)) parent = ctx_error st parent
    \<and> \<not> timer_armed (timers (snd (WithTimeout_new parent ms st)) ! length (timers st))"
    using init fired
    by (simp add: WithTimeout_new_def split_beta par CancelSignal_onCanceled_def timer_armed_clearTimeout)
  from c t show ?thesis
    by blast
qed

theorem C9_born_canceled_witness:
  "ctx_done (WithCancel Background 0) = Some 0
   \<and> aborted fired_parent 0
   \<and> ctx_error fired_parent (WithCancel Background 0) = Some Canceled
   \<and> aborted (snd (WithCancel_new (WithCancel Background 0) fired_parent)) 1
   \<and> ctx_error (snd (WithCancel_new (WithCancel Background 0) fired_parent))
        (fst (WithCancel_new (WithCancel Background 0) fired_parent)) = Some Canceled
   \<and> aborted (snd (WithTimeout_new (WithCancel Background 0) (Finite 30) fired_parent)) 1
   \<and> ctx_error (snd (WithTimeout_new (WithCancel Background 0) (Finite 30) fired_parent))
        (fst (WithTimeout_new (WithCancel Background 0) (Finite 30) fired_parent)) = Some Canceled"
proof -
  have d: "ctx_done (WithCancel Background 0) = Some 0"
    by simp
  have a: "aborted fired_parent 0"
    by code_simp
  have e: "ctx_error fired_parent (WithCancel Background 0) = Some Canceled"
    by code_simp
  have n: "length (signals fired_parent) = 1"
    by code_simp
  from C9_born_canceled [OF d a, of "Finite 30"] d a e n show ?thesis
    by simp
qed

text \<open>
  C2, at a \<open>WithTimeout\<close> node whose deadline has passed: \<open>error()\<close> is
  \<open>DeadlineExceeded\<close>, and after a call of \<open>cancel()\<close> it is \<open>Canceled\<close>.
\<close>

theorem C2_cancel_after_deadline:
  "case WithTimeout_new Background (Finite 20) init of (t, st1) \<Rightarrow>
     t = WithTimeout Background 0
     \<and> ctx_error st1 t = None
     \<and> aborted (delay 21 st1) 0
     \<and> ctx_error (delay 21 st1) t = Some DeadlineExceeded
     \<and> ctx_error (ctx_cancel t (delay 21 st1)) t = Some Canceled"
  by code_simp

text \<open>
  C3, at a child of an unfired \<open>WithCancel\<close> parent: after \<open>cancel()\<close> of the child
  the listener registered on the parent's signal at construction is still registered.
\<close>

theorem C3_handler_stays_registered:
  "case WithCancel_new Background init of (p, st1) \<Rightarrow>
   case WithCancel_new p st1 of (c, st2) \<Rightarrow>
     p = WithCancel Background 0 \<and> c = WithCancel p 1
     \<and> listeners st2 0 = [OnCanceled 0 (Handler 1 0)]
     \<and> aborted (ctx_cancel c st2) 1
     \<and> \<not> aborted (ctx_cancel c st2) 0
     \<and> listeners (ctx_cancel c st2) 0 = [OnCanceled 0 (Handler 1 0)]"
  by code_simp

text \<open>
  C4, at a \<open>WithTimeout\<close> node (50 ms) below a \<open>WithTimeout\<close> parent (100 ms) that is
  canceled at once: its own timer is disarmed and its cause is \<open>Canceled\<close> after 60 ms,
  but after 100 ms the parent's deadline has replaced it by \<open>DeadlineExceeded\<close>.
\<close>

theorem C4_parent_deadline_after_cancel:
  "case WithTimeout_new Background (Finite 100) init of (p, st1) \<Rightarrow>
   case WithTimeout_new p (Finite 50) st1 of (t, st2) \<Rightarrow>
     p = WithTimeout Background 0 \<and> t = WithTimeout p 1
     \<and> ctx_error (ctx_cancel t st2) t = Some Canceled
     \<and> \<not> timer_armed (timers (ctx_cancel t st2) ! 1)
     \<and> ctx_error (delay 60 (ctx_cancel t st2)) t = Some Canceled
     \<and> ctx_error (delay 100 (ctx_cancel t st2)) t = Some DeadlineExceeded"
  by code_simp

section \<open>Well-formed stores\<close>

lemma in_set_remove1D: "x \<in> set (remove1 y xs) \<Longrightarrow> x \<in> set xs"
  by (meson notin_set_remove1)

lemma well_formed_iff: "well_formed st = (\<forall>q cb. cb \<in> set (listeners st q) \<longrightarrow> listener_ok (length (signals st)) (length (promises st)) q cb)"
proof
  assume w: "well_formed st"
  show "\<forall>q cb. cb \<in> set (listeners st q) \<longrightarrow> listener_ok (length (signals st)) (length (promises st)) q cb"
  proof (intro allI impI)
    fix q cb
    assume cb: "cb \<in> set (listeners st q)"
    then have "q < length (signals st)"
      by (cases "q < length (signals st)") (simp_all add: listeners_def)
    with w cb show "listener_ok (length (signals st)) (length (promises st)) q cb"
      by (simp add: well_formed_def list_all_iff)
  qed
next
  assume "\<forall>q cb. cb \<in> set (listeners st q) \<longrightarrow> listener_ok (length (signals st)) (length (promises st)) q cb"
  then show "well_formed st"
    by (simp add: well_formed_def list_all_iff)
qed

lemma well_formedD: "well_formed st \<Longrightarrow> cb \<in> set (listeners st q) \<Longrightarrow> listener_ok (length (signals st)) (length (promises st)) q cb"
  by (simp add: well_formed_iff)

lemma listener_okE:
  assumes "listener_ok (length (signals st)) (length (promises st)) q cb"
  obtains fn where "cb = OnCanceled q fn" and "fn_ok (length (signals st)) (length (promises st)) q fn"
  using assms by (cases cb) auto

lemma fn_ok_mono: "ns \<le> ns' \<Longrightarrow> np \<le> np' \<Longrightarrow> fn_ok ns np q fn \<Longrightarrow> fn_ok ns' np' q fn"
  by (cases fn) auto

lemma listener_ok_mono:
  "ns \<le> ns' \<Longrightarrow> np \<le> np' \<Longrightarrow> listener_ok ns np q cb \<Longrightarrow> listener_ok ns' np' q cb"
  by (cases cb) (auto intro: fn_ok_mono)

lemma well_formed_init: "well_formed init"
  by (simp add: well_formed_def init_def)

lemma well_formed_shrink:
  assumes "well_formed st"
    and "length (signals st') = length (signals st)"
    and "length (promises st) \<le> length (promises st')"
    and "\<And>q. set (listeners st' q) \<subseteq> set (listeners st q)"
  shows "well_formed st'"
  unfolding well_formed_iff
proof (intro allI impI)
  fix q cb
  assume "cb \<in> set (listeners st' q)"
  with assms(4) have "cb \<in> set (listeners st q)"
    by blast
  with assms(1) have "listener_ok (length (signals st)) (length (promises st)) q cb"
    by (rule well_formedD)
  with assms(2,3) show "listener_ok (length (signals st')) (length (promises st')) q cb"
    by (auto elim: listener_ok_mono [rotated 2])
qed

lemma well_formed_run: "well_formed st \<Longrightarrow> well_formed (run w st)"
  by (rule well_formed_shrink [where st = st]) (simp_all add: listeners_run)

section \<open>One cause per cascade\<close>

lemma cb_carries_mono:
  assumes "length (signals st') = length (signals st)"
    and "length (promises st') = length (promises st)"
    and "\<And>x. error_of st x = e \<Longrightarrow> error_of st' x = e"
    and "cb_carries e st cb"
  shows "cb_carries e st' cb"
  using assms by (cases cb) auto

lemma call_carries_mono:
  assumes "length (signals st') = length (signals st)"
    and "length (promises st') = length (promises st)"
    and "\<And>x. error_of st x = e \<Longrightarrow> error_of st' x = e"
    and "call_carries e st call"
  shows "call_carries e st' call"
  using assms by (cases call) (auto intro: cb_carries_mono)

lemma rest_carries:
  assumes "\<forall>call \<in> set rest. call_carries e st call"
    and "length (signals st') = length (signals st)"
    and "length (promises st') = length (promises st)"
    and "\<And>x. error_of st x = e \<Longrightarrow> error_of st' x = e"
  shows "\<forall>call \<in> set rest. call_carries e st' call"
proof
  fix call
  assume "call \<in> set rest"
  with assms(1) have "call_carries e st call"
    by blast
  with assms(2-4) show "call_carries e st' call"
    by (rule call_carries_mono)
qed

lemma conf_ok_tail: "conf_ok e (call # w) st \<Longrightarrow> conf_ok e w st"
  by (simp add: conf_ok_def)

lemma conf_ok_Cancel_fired:
  assumes "conf_ok e (Cancel s e' # rest) st"
  shows "conf_ok e (map (Dispatch s) (listeners st s) @ rest) (set_aborted s (set_error s e' st))"
proof -
  let ?st = "set_aborted s (set_error s e' st)"
  from assms have e': "e' = e" and s: "s < length (signals st)" and w: "well_formed st"
    and rest: "\<forall>call \<in> set rest. call_carries e st call"
    by (simp_all add: conf_ok_def)
  have "well_formed ?st"
    by (rule well_formed_shrink [OF w]) simp_all
  moreover have "\<forall>call \<in> set rest. call_carries e ?st call"
    by (rule rest_carries [OF rest]) (simp_all add: e')
  moreover have "call_carries e ?st (Dispatch s cb)" for cb
    using s by (simp add: e')
  ultimately show ?thesis
    by (auto simp: conf_ok_def)
qed

lemma conf_ok_Cancel_skip:
  assumes "conf_ok e (Cancel s e' # rest) st"
  shows "conf_ok e rest (set_error s e' st)"
proof -
  from assms have e': "e' = e" and w: "well_formed st"
    and rest: "\<forall>call \<in> set rest. call_carries e st call"
    by (simp_all add: conf_ok_def)
  have "well_formed (set_error s e' st)"
    by (rule well_formed_shrink [OF w]) simp_all
  moreover have "\<forall>call \<in> set rest. call_carries e (set_error s e' st) call"
    by (rule rest_carries [OF rest]) (simp_all add: e')
  ultimately show ?thesis
    by (auto simp: conf_ok_def)
qed

lemma conf_ok_Dispatch:
  assumes "conf_ok e (Dispatch s cb # rest) st" and "cb \<in> set (listeners st s)"
  shows "conf_ok e (Invoke cb EventArg # rest) (removeEventListener s cb st)"
proof -
  let ?st = "removeEventListener s cb st"
  from assms have err: "error_of st s = e" and w: "well_formed st"
    and rest: "\<forall>call \<in> set rest. call_carries e st call"
    by (simp_all add: conf_ok_def)
  from w assms(2) have "listener_ok (length (signals st)) (length (promises st)) s cb"
    by (rule well_formedD)
  then obtain fn where cb: "cb = OnCanceled s fn" and fn: "fn_ok (length (signals st)) (length (promises st)) s fn"
    by (rule listener_okE)
  have "well_formed ?st"
    by (rule well_formed_shrink [OF w]) (auto dest: in_set_remove1D)
  moreover have "\<forall>call \<in> set rest. call_carries e ?st call"
    by (rule rest_carries [OF rest]) (simp_all)
  moreover have "call_carries e ?st (Invoke cb EventArg)"
    using err fn by (simp add: cb)
  ultimately show ?thesis
    by (auto simp: conf_ok_def)
qed

lemma conf_ok_OnCanceled:
  assumes "conf_ok e (Invoke (OnCanceled s fn) a # rest) st"
  shows "conf_ok e (Invoke fn (ErrorArg (error_of st s)) # rest) st"
proof -
  from assms have err: "error_of st s = e" and fn: "fn_ok (length (signals st)) (length (promises st)) s fn"
    by (simp_all add: conf_ok_def)
  from fn have "cb_carries e st fn"
    using err by (cases fn) auto
  with assms err show ?thesis
    by (simp add: conf_ok_def)
qed

lemma conf_ok_Handler:
  assumes "conf_ok e (Invoke (Handler c p) a # rest) st"
  shows "conf_ok e (Cancel c (error_of st p) # rest) st"
  using assms by (simp add: conf_ok_def)

lemma conf_ok_RemoveHandler:
  assumes "conf_ok e (Invoke (RemoveHandler p h) a # rest) st"
  shows "conf_ok e rest (removeEventListener p h st)"
proof -
  from assms have w: "well_formed st" and rest: "\<forall>call \<in> set rest. call_carries e st call"
    by (simp_all add: conf_ok_def)
  have "well_formed (removeEventListener p h st)"
    by (rule well_formed_shrink [OF w]) (auto dest: in_set_remove1D)
  moreover have "\<forall>call \<in> set rest. call_carries e (removeEventListener p h st) call"
    by (rule rest_carries [OF rest]) (simp_all)
  ultimately show ?thesis
    by (auto simp: conf_ok_def)
qed

lemma conf_ok_ClearTimeout:
  assumes "conf_ok e (Invoke (ClearTimeout t) a # rest) st"
  shows "conf_ok e rest (clearTimeout t st)"
proof -
  from assms have w: "well_formed st" and rest: "\<forall>call \<in> set rest. call_carries e st call"
    by (simp_all add: conf_ok_def)
  have "well_formed (clearTimeout t st)"
    by (rule well_formed_shrink [OF w]) simp_all
  moreover have "\<forall>call \<in> set rest. call_carries e (clearTimeout t st) call"
    by (rule rest_carries [OF rest]) (simp_all)
  ultimately show ?thesis
    by (auto simp: conf_ok_def)
qed

lemma conf_ok_Reject:
  assumes "conf_ok e (Invoke (Reject p) a # rest) st"
  shows "conf_ok e rest (promise_reject p a st)"
proof -
  from assms have w: "well_formed st" and rest: "\<forall>call \<in> set rest. call_carries e st call"
    by (simp_all add: conf_ok_def)
  have "well_formed (promise_reject p a st)"
    by (rule well_formed_shrink [OF w]) simp_all
  moreover have "\<forall>call \<in> set rest. call_carries e (promise_reject p a st) call"
    by (rule rest_carries [OF rest]) (simp_all)
  ultimately show ?thesis
    by (auto simp: conf_ok_def)
qed

lemmas conf_ok_step = conf_ok_Cancel_fired conf_ok_Cancel_skip conf_ok_Dispatch
  conf_ok_OnCanceled conf_ok_Handler conf_ok_RemoveHandler conf_ok_ClearTimeout conf_ok_Reject

lemma cascade_induct [consumes 1, case_names Nil Fire Skip Dispatch Gone Wrapper Handler Remove Clear Reject]:
  assumes ok: "conf_ok e w st"
    and Nil: "\<And>st. conf_ok e [] st \<Longrightarrow> P [] st"
    and Fire: "\<And>s rest st. conf_ok e (Cancel s e # rest) st \<Longrightarrow> s < length (signals st)
        \<Longrightarrow> \<not> aborted st s
        \<Longrightarrow> P (map (Dispatch s) (listeners st s) @ rest) (set_aborted s (set_error s e st))
        \<Longrightarrow> P (Cancel s e # rest) st"
    and Skip: "\<And>s rest st. conf_ok e (Cancel s e # rest) st \<Longrightarrow> aborted st s
        \<Longrightarrow> P rest (set_error s e st) \<Longrightarrow> P (Cancel s e # rest) st"
    and Dispatch: "\<And>s fn rest st. conf_ok e (Dispatch s (OnCanceled s fn) # rest) st
        \<Longrightarrow> OnCanceled s fn \<in> set (listeners st s)
        \<Longrightarrow> P (Invoke (OnCanceled s fn) EventArg # rest) (removeEventListener s (OnCanceled s fn) st)
        \<Longrightarrow> P (Dispatch s (OnCanceled s fn) # rest) st"
    and Gone: "\<And>s cb rest st. conf_ok e (Dispatch s cb # rest) st \<Longrightarrow> cb \<notin> set (listeners st s)
        \<Longrightarrow> P rest st \<Longrightarrow> P (Dispatch s cb # rest) st"
    and Wrapper: "\<And>s fn a rest st. conf_ok e (Invoke (OnCanceled s fn) a # rest) st
        \<Longrightarrow> error_of st s = e \<Longrightarrow> P (Invoke fn (ErrorArg e) # rest) st
        \<Longrightarrow> P (Invoke (OnCanceled s fn) a # rest) st"
    and Handler: "\<And>c p a rest st. conf_ok e (Invoke (Handler c p) a # rest) st
        \<Longrightarrow> error_of st p = e \<Longrightarrow> c < length (signals st) \<Longrightarrow> P (Cancel c e # rest) st
        \<Longrightarrow> P (Invoke (Handler c p) a # rest) st"
    and Remove: "\<And>p c q a rest st. conf_ok e (Invoke (RemoveHandler p (Handler c q)) a # rest) st
        \<Longrightarrow> P rest (removeEventListener p (Handler c q) st)
        \<Longrightarrow> P (Invoke (RemoveHandler p (Handler c q)) a # rest) st"
    and Clear: "\<And>t a rest st. conf_ok e (Invoke (ClearTimeout t) a # rest) st
        \<Longrightarrow> P rest (clearTimeout t st) \<Longrightarrow> P (Invoke (ClearTimeout t) a # rest) st"
    and Reject: "\<And>p rest st. conf_ok e (Invoke (Reject p) (ErrorArg e) # rest) st
        \<Longrightarrow> P rest (promise_reject p (ErrorArg e) st)
        \<Longrightarrow> P (Invoke (Reject p) (ErrorArg e) # rest) st"
  shows "P w st"
  using ok
proof (induction w st rule: run.induct)
  case (1 st)
  then show ?case by (rule Nil)
next
  case (2 s e' rest st)
  from "2.prems" have e': "e' = e" and s: "s < length (signals st)"
    by (simp_all add: conf_ok_def)
  note ok = "2.prems" [unfolded e']
  show ?case
  proof (cases "aborted st s")
    case True
    have "conf_ok e rest (set_error s e st)"
      using ok by (rule conf_ok_Cancel_skip)
    then have "P rest (set_error s e st)"
      using True "2.IH"(2) by (simp add: e')
    then show ?thesis
      unfolding e' by (rule Skip [OF ok True])
  next
    case False
    have "conf_ok e (map (Dispatch s) (listeners st s) @ rest) (set_aborted s (set_error s e st))"
      using ok by (rule conf_ok_Cancel_fired)
    then have "P (map (Dispatch s) (listeners st s) @ rest) (set_aborted s (set_error s e st))"
      using False s "2.IH"(1) by (simp add: e')
    then show ?thesis
      unfolding e' by (rule Fire [OF ok s False])
  qed
next
  case (3 s cb rest st)
  show ?case
  proof (cases "cb \<in> set (listeners st s)")
    case True
    from "3.prems" have "well_formed st"
      by (simp add: conf_ok_def)
    then have "listener_ok (length (signals st)) (length (promises st)) s cb"
      using True by (rule well_formedD)
    then obtain fn where cb: "cb = OnCanceled s fn"
      by (rule listener_okE)
    have "conf_ok e (Invoke cb EventArg # rest) (removeEventListener s cb st)"
      using "3.prems" True by (rule conf_ok_Dispatch)
    then have "P (Invoke cb EventArg # rest) (removeEventListener s cb st)"
      using True "3.IH"(1) by simp
    then show ?thesis
      using "3.prems" True unfolding cb by (rule Dispatch [rotated 2])
  next
    case False
    have "conf_ok e rest st"
      using "3.prems" by (rule conf_ok_tail)
    then have "P rest st"
      using False "3.IH"(2) by simp
    then show ?thesis
      by (rule Gone [OF "3.prems" False])
  qed
next
  case (4 s fn a rest st)
  from "4.prems" have err: "error_of st s = e"
    by (simp add: conf_ok_def)
  have "conf_ok e (Invoke fn (ErrorArg (error_of st s)) # rest) st"
    using "4.prems" by (rule conf_ok_OnCanceled)
  then have "P (Invoke fn (ErrorArg (error_of st s)) # rest) st"
    by (rule "4.IH")
  then show ?case
    unfolding err by (rule Wrapper [OF "4.prems" err])
next
  case (5 child parentSignal a rest st)
  from "5.prems" have err: "error_of st parentSignal = e" and c: "child < length (signals st)"
    by (simp_all add: conf_ok_def)
  have "conf_ok e (Cancel child (error_of st parentSignal) # rest) st"
    using "5.prems" by (rule conf_ok_Handler)
  then have "P (Cancel child (error_of st parentSignal) # rest) st"
    by (rule "5.IH")
  then show ?case
    unfolding err by (rule Handler [OF "5.prems" err c])
next
  case (6 parentSignal handler a rest st)
  from "6.prems" have "is_Handler handler"
    by (simp add: conf_ok_def)
  then obtain c q where h: "handler = Handler c q"
    by (cases handler) simp_all
  have "conf_ok e rest (removeEventListener parentSignal handler st)"
    using "6.prems" by (rule conf_ok_RemoveHandler)
  then have "P rest (removeEventListener parentSignal handler st)"
    by (rule "6.IH")
  then show ?case
    using "6.prems" unfolding h by (rule Remove [rotated])
next
  case (7 t a rest st)
  have "conf_ok e rest (clearTimeout t st)"
    using "7.prems" by (rule conf_ok_ClearTimeout)
  then have "P rest (clearTimeout t st)"
    by (rule "7.IH")
  then show ?case
    by (rule Clear [OF "7.prems"])
next
  case (8 p a rest st)
  from "8.prems" have a: "a = ErrorArg e"
    by (simp add: conf_ok_def)
  have "conf_ok e rest (promise_reject p a st)"
    using "8.prems" by (rule conf_ok_Reject)
  then have "P rest (promise_reject p a st)"
    by (rule "8.IH")
  then show ?case
    using "8.prems" unfolding a by (rule Reject [rotated])
qed

lemma error_stays:
  "conf_ok e w st \<Longrightarrow> error_of st x = e \<Longrightarrow> error_of (run w st) x = e"
  by (induction w st rule: cascade_induct) simp_all

section \<open>Promises bound to a context\<close>

lemma promises_promise_reject:
  "promises (promise_reject p r st) ! x =
     (if x = p \<and> p < length (promises st) \<and> promises st ! p = Pending then Rejected r
      else promises st ! x)"
  by (simp add: promise_reject_def)

lemma promises_promise_resolve:
  "promises (promise_resolve p v st) ! x =
     (if x = p \<and> p < length (promises st) \<and> promises st ! p = Pending then Fulfilled v
      else promises st ! x)"
  by (simp add: promise_resolve_def)

lemma settled_reject:
  "promises st ! p \<noteq> Pending \<Longrightarrow> promises (promise_reject p' r st) ! p = promises st ! p"
  by (auto simp: promises_promise_reject)

lemma settled_resolve:
  "promises st ! p \<noteq> Pending \<Longrightarrow> promises (promise_resolve p' v st) ! p = promises st ! p"
  by (auto simp: promises_promise_resolve)

lemma settled_run:
  "promises st ! p \<noteq> Pending \<Longrightarrow> promises (run w st) ! p = promises st ! p"
  by (induction w st rule: run.induct) (simp_all add: settled_reject)

lemma settles_mono:
  assumes "settles s p e w st"
    and "promises st' = promises st"
    and "\<And>call. call \<in> set w \<Longrightarrow> stage_call s p e st call \<Longrightarrow> \<exists>call' \<in> set w'. stage_call s p e st' call'"
  shows "settles s p e w' st'"
  using assms unfolding settles_def by metis

lemma stage_call_cong:
  "listeners st' s = listeners st s \<Longrightarrow> stage_call s p e st' call = stage_call s p e st call"
  by (simp add: stage_call_def)

lemma stage_call_remove:
  assumes "stage_call s p e st call" and "q \<noteq> s \<or> cb \<noteq> OnCanceled s (Reject p)"
  shows "stage_call s p e (removeEventListener q cb st) call"
proof (cases "q = s")
  case True
  with assms(2) have "OnCanceled s (Reject p) \<noteq> cb"
    by auto
  then have "(OnCanceled s (Reject p) \<in> set (remove1 cb (listeners st s)))
      = (OnCanceled s (Reject p) \<in> set (listeners st s))"
    by (rule in_set_remove1)
  with assms(1) True show ?thesis
    by (simp add: stage_call_def)
next
  case False
  with assms(1) show ?thesis
    by (simp add: stage_call_def)
qed

lemma settles_run:
  "conf_ok e w st \<Longrightarrow> settles s p e w st \<Longrightarrow> promises (run w st) ! p = Rejected (ErrorArg e)"
proof (induction w st rule: cascade_induct)
  case (Nil st)
  then show ?case
    by (simp add: settles_def)
next
  case (Fire c rest st)
  have "settles s p e (map (Dispatch c) (listeners st c) @ rest) (set_aborted c (set_error c e st))"
  proof (rule settles_mono [OF Fire.prems])
    fix call
    assume "call \<in> set (Cancel c e # rest)" and "stage_call s p e st call"
    then have "call \<in> set rest" and "stage_call s p e (set_aborted c (set_error c e st)) call"
      by (auto simp: stage_call_def)
    then show "\<exists>call' \<in> set (map (Dispatch c) (listeners st c) @ rest).
        stage_call s p e (set_aborted c (set_error c e st)) call'"
      by auto
  qed simp
  with Fire show ?case
    by simp
next
  case (Skip c rest st)
  have "settles s p e rest (set_error c e st)"
  proof (rule settles_mono [OF Skip.prems])
    fix call
    assume "call \<in> set (Cancel c e # rest)" and "stage_call s p e st call"
    then have "call \<in> set rest" and "stage_call s p e (set_error c e st) call"
      by (auto simp: stage_call_def)
    then show "\<exists>call' \<in> set rest. stage_call s p e (set_error c e st) call'"
      by auto
  qed simp
  with Skip show ?case
    by simp
next
  case (Dispatch c fn rest st)
  let ?st = "removeEventListener c (OnCanceled c fn) st"
  have "settles s p e (Invoke (OnCanceled c fn) EventArg # rest) ?st"
  proof (rule settles_mono [OF Dispatch.prems])
    fix call
    assume call: "call \<in> set (Dispatch c (OnCanceled c fn) # rest)" and st: "stage_call s p e st call"
    show "\<exists>call' \<in> set (Invoke (OnCanceled c fn) EventArg # rest). stage_call s p e ?st call'"
    proof (cases "c = s \<and> fn = Reject p")
      case True
      then have "stage_call s p e ?st (Invoke (OnCanceled c fn) EventArg)"
        by (simp add: stage_call_def)
      then show ?thesis
        by simp
    next
      case False
      then have ne: "c \<noteq> s \<or> OnCanceled c fn \<noteq> OnCanceled s (Reject p)"
        by auto
      from False st have "call \<noteq> Dispatch c (OnCanceled c fn)"
        by (auto simp: stage_call_def)
      with call have "call \<in> set rest"
        by simp
      moreover from st ne have "stage_call s p e ?st call"
        by (rule stage_call_remove)
      ultimately show ?thesis
        by auto
    qed
  qed simp
  with Dispatch show ?case
    by simp
next
  case (Gone c cb rest st)
  have "settles s p e rest st"
  proof (rule settles_mono [OF Gone.prems])
    fix call
    assume "call \<in> set (Dispatch c cb # rest)" and st: "stage_call s p e st call"
    with Gone.hyps(2) have "call \<in> set rest"
      by (auto simp: stage_call_def)
    with st show "\<exists>call' \<in> set rest. stage_call s p e st call'"
      by auto
  qed simp
  with Gone show ?case
    by simp
next
  case (Wrapper c fn a rest st)
  have "settles s p e (Invoke fn (ErrorArg e) # rest) st"
  proof (rule settles_mono [OF Wrapper.prems])
    fix call
    assume call: "call \<in> set (Invoke (OnCanceled c fn) a # rest)" and st: "stage_call s p e st call"
    show "\<exists>call' \<in> set (Invoke fn (ErrorArg e) # rest). stage_call s p e st call'"
    proof (cases "call = Invoke (OnCanceled c fn) a")
      case True
      with st have "fn = Reject p"
        by (simp add: stage_call_def)
      then have "stage_call s p e st (Invoke fn (ErrorArg e))"
        by (simp add: stage_call_def)
      then show ?thesis
        by simp
    next
      case False
      with call st show ?thesis
        by auto
    qed
  qed simp
  with Wrapper show ?case
    by simp
next
  case (Handler c q a rest st)
  have "settles s p e (Cancel c e # rest) st"
  proof (rule settles_mono [OF Handler.prems])
    fix call
    assume "call \<in> set (Invoke (Handler c q) a # rest)" and st: "stage_call s p e st call"
    then have "call \<in> set rest"
      by (auto simp: stage_call_def)
    with st show "\<exists>call' \<in> set (Cancel c e # rest). stage_call s p e st call'"
      by auto
  qed simp
  with Handler show ?case
    by simp
next
  case (Remove q c r a rest st)
  have "settles s p e rest (removeEventListener q (Handler c r) st)"
  proof (rule settles_mono [OF Remove.prems])
    fix call
    assume "call \<in> set (Invoke (RemoveHandler q (Handler c r)) a # rest)" and st: "stage_call s p e st call"
    then have "call \<in> set rest"
      by (auto simp: stage_call_def)
    moreover from st have "stage_call s p e (removeEventListener q (Handler c r) st) call"
      by (rule stage_call_remove) simp
    ultimately show "\<exists>call' \<in> set rest. stage_call s p e (removeEventListener q (Handler c r) st) call'"
      by auto
  qed simp
  with Remove show ?case
    by simp
next
  case (Clear t a rest st)
  have "settles s p e rest (clearTimeout t st)"
  proof (rule settles_mono [OF Clear.prems])
    fix call
    assume "call \<in> set (Invoke (ClearTimeout t) a # rest)" and st: "stage_call s p e st call"
    then have "call \<in> set rest" and "stage_call s p e (clearTimeout t st) call"
      by (auto simp: stage_call_def)
    then show "\<exists>call' \<in> set rest. stage_call s p e (clearTimeout t st) call'"
      by auto
  qed simp
  with Clear show ?case
    by simp
next
  case (Reject p' rest st)
  let ?st = "promise_reject p' (ErrorArg e) st"
  from Reject.prems have p: "p < length (promises st)"
    by (simp add: settles_def)
  have "settles s p e rest ?st"
  proof (cases "p' = p \<and> promises st ! p = Pending")
    case True
    with p have "promises ?st ! p = Rejected (ErrorArg e)"
      by (simp add: promises_promise_reject)
    with p show ?thesis
      by (simp add: settles_def)
  next
    case False
    then have same: "promises ?st ! p = promises st ! p"
      by (auto simp: promises_promise_reject)
    show ?thesis
    proof (cases "promises st ! p = Pending")
      case True
      with False have ne: "p' \<noteq> p"
        by simp
      from Reject.prems True obtain call where call: "call \<in> set (Invoke (Reject p') (ErrorArg e) # rest)"
        and st: "stage_call s p e st call"
        by (auto simp: settles_def)
      from st ne have "call \<noteq> Invoke (Reject p') (ErrorArg e)"
        by (auto simp: stage_call_def)
      with call have "call \<in> set rest"
        by simp
      moreover from st have "stage_call s p e ?st call"
        by (simp add: stage_call_def)
      ultimately show ?thesis
        using p same True by (auto simp: settles_def)
    next
      case False
      with Reject.prems same p show ?thesis
        by (simp add: settles_def)
    qed
  qed
  with Reject show ?case
    by simp
qed

section \<open>Constructors keep the store well-formed\<close>

lemma well_formed_step:
  assumes "well_formed st"
    and "length (signals st) \<le> length (signals st')"
    and "length (promises st) \<le> length (promises st')"
    and "\<And>q cb. cb \<in> set (listeners st' q) \<Longrightarrow>
          cb \<in> set (listeners st q) \<or> listener_ok (length (signals st')) (length (promises st')) q cb"
  shows "well_formed st'"
  unfolding well_formed_iff
proof (intro allI impI)
  fix q cb
  assume "cb \<in> set (listeners st' q)"
  then consider "cb \<in> set (listeners st q)"
    | "listener_ok (length (signals st')) (length (promises st')) q cb"
    using assms(4) by blast
  then show "listener_ok (length (signals st')) (length (promises st')) q cb"
  proof cases
    case 1
    with assms(1) have "listener_ok (length (signals st)) (length (promises st)) q cb"
      by (rule well_formedD)
    with assms(2,3) show ?thesis
      by (rule listener_ok_mono)
  next
    case 2
    then show ?thesis .
  qed
qed

lemma well_formed_CancelSignal_new: "well_formed st \<Longrightarrow> well_formed (snd (CancelSignal_new st))"
  by (rule well_formed_step [where st = st]) simp_all

lemma well_formed_setTimeout: "well_formed st \<Longrightarrow> well_formed (snd (setTimeout s ms st))"
  by (rule well_formed_step [where st = st]) simp_all

lemma well_formed_clearTimeout: "well_formed st \<Longrightarrow> well_formed (clearTimeout t st)"
  by (rule well_formed_step [where st = st]) simp_all

lemma well_formed_promise_reject: "well_formed st \<Longrightarrow> well_formed (promise_reject p r st)"
  by (rule well_formed_step [where st = st]) simp_all

lemma well_formed_promise_resolve: "well_formed st \<Longrightarrow> well_formed (promise_resolve p v st)"
  by (rule well_formed_step [where st = st]) simp_all

lemma well_formed_onCanceled:
  assumes "well_formed st" and "fn_ok (length (signals st)) (length (promises st)) s fn"
  shows "well_formed (CancelSignal_onCanceled s fn st)"
proof (cases "aborted st s")
  case True
  with assms(1) show ?thesis
    by (simp add: CancelSignal_onCanceled_def well_formed_run)
next
  case False
  have "well_formed (addEventListener s (OnCanceled s fn) st)"
    using assms(2) by (intro well_formed_step [OF assms(1)]) (auto split: if_splits)
  with False show ?thesis
    by (simp add: CancelSignal_onCanceled_def)
qed

lemma well_formed_cancel: "well_formed st \<Longrightarrow> well_formed (CancelSignal_cancel s e st)"
  unfolding CancelSignal_cancel_def by (rule well_formed_run)

lemma well_formed_ctx_cancel: "well_formed st \<Longrightarrow> well_formed (ctx_cancel c st)"
  by (cases c) (simp_all add: well_formed_cancel)

lemma well_formed_timer_fire: "well_formed st \<Longrightarrow> well_formed (timer_fire t st)"
  by (simp add: timer_fire_def well_formed_cancel well_formed_clearTimeout)

lemma well_formed_fold_timer_fire: "well_formed st \<Longrightarrow> well_formed (fold timer_fire ts st)"
  by (induction ts arbitrary: st) (simp_all add: well_formed_timer_fire)

lemma well_formed_delay: "well_formed st \<Longrightarrow> well_formed (delay ms st)"
proof -
  assume "well_formed st"
  then have "well_formed (fold timer_fire (due_timers st (clock st + ms)) st)"
    by (rule well_formed_fold_timer_fire)
  then show ?thesis
    unfolding delay_def by (rule well_formed_step) (simp_all add: listeners_def)
qed

lemma onCanceled_length [simp]:
  "length (signals (CancelSignal_onCanceled s fn st)) = length (signals st)"
  "length (promises (CancelSignal_onCanceled s fn st)) = length (promises st)"
  "length (timers (CancelSignal_onCanceled s fn st)) = length (timers st)"
  "clock (CancelSignal_onCanceled s fn st) = clock st"
  by (simp_all add: CancelSignal_onCanceled_def)

lemma WithCancel_init_fst [simp]: "fst (WithCancel_init ctx st) = length (signals st)"
  by (simp add: WithCancel_init_def split_beta split: option.split)

lemma WithCancel_init_length [simp]:
  "length (signals (snd (WithCancel_init ctx st))) = Suc (length (signals st))"
  "length (promises (snd (WithCancel_init ctx st))) = length (promises st)"
  "length (timers (snd (WithCancel_init ctx st))) = length (timers st)"
  "clock (snd (WithCancel_init ctx st)) = clock st"
  by (simp_all add: WithCancel_init_def split_beta split: option.split)

lemma well_formed_WithCancel_init:
  assumes "well_formed st" and "ctx_in_store st ctx"
  shows "well_formed (snd (WithCancel_init ctx st))"
proof (cases "ctx_done ctx")
  case None
  with assms(1) show ?thesis
    by (simp add: WithCancel_init_def split_beta well_formed_CancelSignal_new)
next
  case (Some ps)
  with assms(2) have ps: "ps < length (signals st)"
    by (simp add: ctx_in_store_def)
  let ?n = "length (signals st)"
  let ?st1 = "snd (CancelSignal_new st)"
  let ?st2 = "CancelSignal_onCanceled ps (Handler ?n ps) ?st1"
  have "well_formed ?st1"
    using assms(1) by (rule well_formed_CancelSignal_new)
  then have "well_formed ?st2"
    by (rule well_formed_onCanceled) (simp add: ps)
  then have "well_formed (CancelSignal_onCanceled ?n (RemoveHandler ps (Handler ?n ps)) ?st2)"
    by (rule well_formed_onCanceled) simp
  with Some show ?thesis
    by (simp add: WithCancel_init_def split_beta)
qed

lemma well_formed_WithCancel_new:
  "well_formed st \<Longrightarrow> ctx_in_store st ctx \<Longrightarrow> well_formed (snd (WithCancel_new ctx st))"
  by (simp add: WithCancel_new_def split_beta well_formed_WithCancel_init)

lemma well_formed_WithTimeout_new:
  assumes "well_formed st" and "ctx_in_store st ctx"
  shows "well_formed (snd (WithTimeout_new ctx ms st))"
proof -
  have "well_formed (snd (WithCancel_init ctx st))"
    using assms by (rule well_formed_WithCancel_init)
  then have "well_formed (snd (setTimeout (length (signals st)) ms (snd (WithCancel_init ctx st))))"
    by (rule well_formed_setTimeout)
  then have "well_formed (CancelSignal_onCanceled (length (signals st))
      (ClearTimeout (length (timers st)))
      (snd (setTimeout (length (signals st)) ms (snd (WithCancel_init ctx st)))))"
    by (rule well_formed_onCanceled) simp
  then show ?thesis
    by (simp add: WithTimeout_new_def split_beta)
qed

lemma well_formed_derive:
  "well_formed st \<Longrightarrow> ctx_in_store st ctx \<Longrightarrow> well_formed (snd (derive k ctx st))"
  by (cases k) (simp_all add: well_formed_WithCancel_new well_formed_WithTimeout_new)

section \<open>ContextPromise\<close>

lemma fire_rejects:
  assumes "well_formed st" and "s < length (signals st)" and "\<not> aborted st s"
    and "p < length (promises st)" and "promises st ! p = Pending"
    and "OnCanceled s (Reject p) \<in> set (listeners st s)"
  shows "promises (CancelSignal_cancel s e st) ! p = Rejected (ErrorArg e)"
    and "error_of (CancelSignal_cancel s e st) s = e"
proof -
  let ?w = "map (Dispatch s) (listeners st s)"
  let ?st = "set_aborted s (set_error s e st)"
  have run: "CancelSignal_cancel s e st = run ?w ?st"
    using assms(2,3) by (simp add: CancelSignal_cancel_def)
  have "conf_ok e [Cancel s e] st"
    using assms(1,2) by (simp add: conf_ok_def)
  then have ok: "conf_ok e ?w ?st"
    using conf_ok_Cancel_fired [of e s e "[]" st] by simp
  have "stage_call s p e ?st (Dispatch s (OnCanceled s (Reject p)))"
    using assms(6) by (simp add: stage_call_def)
  moreover have "Dispatch s (OnCanceled s (Reject p)) \<in> set ?w"
    using assms(6) by simp
  ultimately have "settles s p e ?w ?st"
    using assms(4,5) unfolding settles_def by auto
  with ok show "promises (CancelSignal_cancel s e st) ! p = Rejected (ErrorArg e)"
    unfolding run by (rule settles_run)
  have "error_of ?st s = e"
    using assms(2) by simp
  with ok show "error_of (CancelSignal_cancel s e st) s = e"
    unfolding run by (rule error_stays)
qed

lemma ContextPromise_new_unfired:
  assumes "ctx_done ctx = Some s" and "s < length (signals st)" and "\<not> aborted st s"
  shows "fst (ContextPromise_new ctx [] st) = length (promises st)"
    and "promises (snd (ContextPromise_new ctx [] st)) = promises st @ [Pending]"
    and "listeners (snd (ContextPromise_new ctx [] st)) s
          = listeners st s @ [OnCanceled s (Reject (length (promises st)))]"
    and "length (signals (snd (ContextPromise_new ctx [] st))) = length (signals st)"
    and "aborted (snd (ContextPromise_new ctx [] st)) x = aborted st x"
  using assms
  by (auto simp add: ContextPromise_new_def Promise_new_def CancelSignal_onCanceled_def
      addEventListener_def aborted_def listeners_def nth_list_update_total)

lemma well_formed_ContextPromise_new:
  assumes "well_formed st" and "ctx_in_store st ctx"
  shows "well_formed (snd (ContextPromise_new ctx ex st))"
proof -
  let ?p = "length (promises st)"
  let ?st0 = "st\<lparr>promises := promises st @ [Pending]\<rparr>"
  have fold: "well_formed st' \<Longrightarrow> well_formed (fold (promise_settle p) xs st')" for st' p xs
  proof (induction xs arbitrary: st')
    case Nil
    then show ?case by simp
  next
    case (Cons x xs)
    then show ?case
      by (cases x) (simp_all add: well_formed_promise_reject well_formed_promise_resolve)
  qed
  have len: "length (promises (fold (promise_settle p) xs st')) = length (promises st')"
    and sig: "length (signals (fold (promise_settle p) xs st')) = length (signals st')" for st' p xs
  proof (induction xs arbitrary: st')
    case Nil
    {
      case 1
      show ?case by simp
    next
      case 2
      show ?case by simp
    }
  next
    case (Cons x xs)
    {
      case 1
      with Cons show ?case by (cases x) simp_all
    next
      case 2
      with Cons show ?case by (cases x) simp_all
    }
  qed
  have "well_formed ?st0"
    by (rule well_formed_step [OF assms(1)]) (simp_all add: listeners_def)
  then have w1: "well_formed (snd (Promise_new ex st))"
    by (simp add: Promise_new_def fold)
  show ?thesis
  proof (cases "ctx_done ctx")
    case None
    with w1 show ?thesis
      by (simp add: ContextPromise_new_def split_beta)
  next
    case (Some s)
    have "well_formed (CancelSignal_onCanceled s (Reject ?p) (snd (Promise_new ex st)))"
      using w1 by (rule well_formed_onCanceled) (simp add: Promise_new_def len)
    with Some show ?thesis
      by (simp add: ContextPromise_new_def split_beta Promise_new_def)
  qed
qed

lemma settled_cancel:
  "promises st ! p \<noteq> Pending \<Longrightarrow> promises (CancelSignal_cancel s e st) ! p = promises st ! p"
  unfolding CancelSignal_cancel_def by (rule settled_run)

lemma promises_onCanceled_settled:
  "promises st ! p \<noteq> Pending \<Longrightarrow> promises (CancelSignal_onCanceled s fn st) ! p = promises st ! p"
  unfolding CancelSignal_onCanceled_def by (simp del: run.simps add: settled_run)

text \<open>
  A \<open>ContextPromise\<close> is bound to a context with the signal \<open>s\<close> in a well-formed
  store. If the signal has not fired and the executor has not settled the
  promise, the promise is pending; when the signal then fires with a cause \<open>e\<close> (by
  \<open>cancel()\<close>, a deadline or a parent), the promise is rejected with \<open>e\<close>, which is
  what \<open>error()\<close> of the context returns, and no later call or \<open>resolve\<close> changes that.
  If the executor resolves or rejects first, in the constructor or later, the firing
  leaves the settled promise as it is. If the signal had fired before the promise was
  made, the promise is rejected with the recorded cause in the constructor.
\<close>

lemma promise_follows:
  assumes "well_formed st" and "ctx_done ctx = Some s" and "s < length (signals st)"
  shows "(\<not> aborted st s \<longrightarrow>
       promises (snd (ContextPromise_new ctx [] st)) ! fst (ContextPromise_new ctx [] st) = Pending
     \<and> promises (CancelSignal_cancel s e (snd (ContextPromise_new ctx [] st)))
           ! fst (ContextPromise_new ctx [] st) = Rejected (ErrorArg e)
     \<and> ctx_error (CancelSignal_cancel s e (snd (ContextPromise_new ctx [] st))) ctx = e
     \<and> promises (run w (CancelSignal_cancel s e (snd (ContextPromise_new ctx [] st))))
           ! fst (ContextPromise_new ctx [] st) = Rejected (ErrorArg e)
     \<and> promises (promise_resolve (fst (ContextPromise_new ctx [] st)) v
           (CancelSignal_cancel s e (snd (ContextPromise_new ctx [] st))))
           ! fst (ContextPromise_new ctx [] st) = Rejected (ErrorArg e)
     \<and> promises (CancelSignal_cancel s e
           (promise_resolve (fst (ContextPromise_new ctx [] st)) v (snd (ContextPromise_new ctx [] st))))
           ! fst (ContextPromise_new ctx [] st) = Fulfilled v
     \<and> promises (CancelSignal_cancel s e
           (promise_reject (fst (ContextPromise_new ctx [] st)) (ValueArg r) (snd (ContextPromise_new ctx [] st))))
           ! fst (ContextPromise_new ctx [] st) = Rejected (ValueArg r))
   \<and> promises (CancelSignal_cancel s e (snd (ContextPromise_new ctx [Resolve v] st)))
         ! fst (ContextPromise_new ctx [Resolve v] st) = Fulfilled v
   \<and> (aborted st s \<longrightarrow>
       promises (snd (ContextPromise_new ctx [] st)) ! fst (ContextPromise_new ctx [] st)
         = Rejected (ErrorArg (ctx_error st ctx)))"
proof (intro conjI impI)
  let ?p = "length (promises st)"
  have sync: "promises (snd (ContextPromise_new ctx [Resolve v] st)) ! fst (ContextPromise_new ctx [Resolve v] st)
      = Fulfilled v"
    using assms(2)
    by (simp add: ContextPromise_new_def Promise_new_def promises_onCanceled_settled
        promises_promise_resolve)
  then show "promises (CancelSignal_cancel s e (snd (ContextPromise_new ctx [Resolve v] st)))
      ! fst (ContextPromise_new ctx [Resolve v] st) = Fulfilled v"
    by (simp add: settled_cancel)
  {
    assume "aborted st s"
    then show "promises (snd (ContextPromise_new ctx [] st)) ! fst (ContextPromise_new ctx [] st)
        = Rejected (ErrorArg (ctx_error st ctx))"
      using assms(2)
      by (simp add: ContextPromise_new_def Promise_new_def CancelSignal_onCanceled_def
          promises_promise_reject ctx_error_done [OF assms(2)] aborted_def error_of_def)
  }
  assume unfired: "\<not> aborted st s"
  let ?st1 = "snd (ContextPromise_new ctx [] st)"
  note new = ContextPromise_new_unfired [OF assms(2,3) unfired]
  have p: "fst (ContextPromise_new ctx [] st) = ?p"
    by (rule new(1))
  have store: "ctx_in_store st ctx"
    using assms(2,3) by (simp add: ctx_in_store_def)
  have w1: "well_formed ?st1"
    using assms(1) store by (rule well_formed_ContextPromise_new)
  have pending: "promises ?st1 ! ?p = Pending"
    by (simp add: new(2))
  then show "promises ?st1 ! fst (ContextPromise_new ctx [] st) = Pending"
    by (simp add: p)
  have pre: "s < length (signals ?st1)" "\<not> aborted ?st1 s" "?p < length (promises ?st1)"
    "OnCanceled s (Reject ?p) \<in> set (listeners ?st1 s)"
    using assms(3) unfired by (simp_all add: new)
  have fire: "promises (CancelSignal_cancel s e ?st1) ! ?p = Rejected (ErrorArg e)"
    by (rule fire_rejects(1) [OF w1 pre(1,2,3) pending pre(4)])
  have err: "error_of (CancelSignal_cancel s e ?st1) s = e"
    by (rule fire_rejects(2) [OF w1 pre(1,2,3) pending pre(4)])
  from fire show "promises (CancelSignal_cancel s e ?st1) ! fst (ContextPromise_new ctx [] st)
      = Rejected (ErrorArg e)"
    by (simp add: p)
  from err show "ctx_error (CancelSignal_cancel s e ?st1) ctx = e"
    by (simp add: ctx_error_done [OF assms(2)])
  from fire show "promises (run w (CancelSignal_cancel s e ?st1)) ! fst (ContextPromise_new ctx [] st)
      = Rejected (ErrorArg e)"
    by (simp add: p settled_run)
  from fire show "promises (promise_resolve (fst (ContextPromise_new ctx [] st)) v
      (CancelSignal_cancel s e ?st1)) ! fst (ContextPromise_new ctx [] st) = Rejected (ErrorArg e)"
    by (simp add: p settled_resolve)
  have "promises (promise_resolve ?p v ?st1) ! ?p = Fulfilled v"
    using pending by (simp add: promises_promise_resolve new(2))
  then show "promises (CancelSignal_cancel s e (promise_resolve (fst (ContextPromise_new ctx [] st)) v ?st1))
      ! fst (ContextPromise_new ctx [] st) = Fulfilled v"
    by (simp add: p settled_cancel)
  have "promises (promise_reject ?p (ValueArg r) ?st1) ! ?p = Rejected (ValueArg r)"
    using pending by (simp add: promises_promise_reject new(2))
  then show "promises (CancelSignal_cancel s e (promise_reject (fst (ContextPromise_new ctx [] st))
      (ValueArg r) ?st1)) ! fst (ContextPromise_new ctx [] st) = Rejected (ValueArg r)"
    by (simp add: p settled_cancel)
qed

section \<open>Propagation to the descendants\<close>

lemma need_transfer:
  assumes "b \<in> need w st"
    and "\<And>call x. call \<in> set w \<Longrightarrow> x \<in> call_targets st call \<Longrightarrow> x \<in> need w' st' \<or> F x"
    and "\<And>a cb x. \<not> aborted st a \<Longrightarrow> cb \<in> set (listeners st a) \<Longrightarrow> x \<in> set (cb_targets cb)
          \<Longrightarrow> a \<in> need w' st' \<or> F a \<Longrightarrow> x \<in> need w' st' \<or> F x"
  shows "b \<in> need w' st' \<or> F b"
  using assms(1)
proof (induction rule: need.induct)
  case (root call b)
  then show ?case by (rule assms(2))
next
  case (link a cb b)
  from link.hyps(2,3,4) link.IH show ?case by (rule assms(3))
qed

lemma need_same:
  assumes "b \<in> need w st"
    and "\<And>x. aborted st' x = aborted st x"
    and "\<And>x. listeners st' x = listeners st x"
    and "\<And>call x. call \<in> set w \<Longrightarrow> x \<in> call_targets st call \<Longrightarrow> \<exists>call' \<in> set w'. x \<in> call_targets st' call'"
  shows "b \<in> need w' st'"
  using assms(1)
proof (induction rule: need.induct)
  case (root call b)
  then obtain call' where "call' \<in> set w'" and "b \<in> call_targets st' call'"
    using assms(4) by blast
  then show ?case by (rule need.root)
next
  case (link a cb b)
  have "\<not> aborted st' a" and "cb \<in> set (listeners st' a)"
    using link.hyps(2,3) by (simp_all add: assms(2,3))
  with link.IH show ?case
    using link.hyps(4) by (rule need.link)
qed

lemma call_targets_cong:
  "(\<And>x. listeners st' x = listeners st x) \<Longrightarrow> call_targets st' call = call_targets st call"
  by (cases call) simp_all

lemma fired_with_final:
  assumes "conf_ok e w st" and "fired_with e st b"
  shows "fired_with e (run w st) b"
  using assms unfolding fired_with_def by (auto intro: aborted_run error_stays)

lemma bare_handler_not_listener:
  "well_formed st \<Longrightarrow> Handler c q \<notin> set (listeners st p)"
  by (auto dest: well_formedD)

lemma remove_bare_handler:
  assumes "well_formed st"
  shows "listeners (removeEventListener p (Handler c q) st) x = listeners st x"
  using bare_handler_not_listener [OF assms, of c q p] by (simp add: remove1_idem)

lemma need_run:
  "conf_ok e w st \<Longrightarrow> b \<in> need w st \<Longrightarrow> fired_with e (run w st) b"
proof (induction w st arbitrary: b rule: cascade_induct)
  case (Nil st)
  from Nil.prems have False
    by (induction rule: need.induct) simp_all
  then show ?case ..
next
  case (Fire c rest st)
  let ?w = "map (Dispatch c) (listeners st c) @ rest"
  let ?st = "set_aborted c (set_error c e st)"
  have ok: "conf_ok e ?w ?st"
    using Fire.hyps(1) by (rule conf_ok_Cancel_fired)
  have "b \<in> need ?w ?st \<or> fired_with e ?st b"
  proof (rule need_transfer [OF Fire.prems])
    fix call x
    assume call: "call \<in> set (Cancel c e # rest)" and x: "x \<in> call_targets st call"
    show "x \<in> need ?w ?st \<or> fired_with e ?st x"
    proof (cases "call = Cancel c e")
      case True
      with x Fire.hyps(2) show ?thesis
        by (simp add: fired_with_def)
    next
      case False
      with call have "call \<in> set ?w"
        by simp
      moreover have "x \<in> call_targets ?st call"
        using x by (simp add: call_targets_cong [of ?st st])
      ultimately show ?thesis
        by (blast intro: need.root)
    qed
  next
    fix a cb x
    assume a: "\<not> aborted st a" and cb: "cb \<in> set (listeners st a)" and x: "x \<in> set (cb_targets cb)"
      and pre: "a \<in> need ?w ?st \<or> fired_with e ?st a"
    show "x \<in> need ?w ?st \<or> fired_with e ?st x"
    proof (cases "a = c")
      case True
      with cb have "Dispatch c cb \<in> set ?w"
        by simp
      moreover have "x \<in> call_targets ?st (Dispatch c cb)"
        using cb x True by simp
      ultimately show ?thesis
        by (blast intro: need.root)
    next
      case False
      with a have na: "\<not> aborted ?st a"
        by simp
      with pre have "a \<in> need ?w ?st"
        unfolding fired_with_def by blast
      then have "x \<in> need ?w ?st"
        using na by (rule need.link) (use cb x in simp_all)
      then show ?thesis ..
    qed
  qed
  then have "fired_with e (run ?w ?st) b"
    using Fire.IH ok by (auto intro: fired_with_final)
  with Fire.hyps(2,3) show ?case
    by simp
next
  case (Skip c rest st)
  let ?st = "set_error c e st"
  have ok: "conf_ok e rest ?st"
    using Skip.hyps(1) by (rule conf_ok_Cancel_skip)
  from Skip.hyps(2) have c: "c < length (signals st)"
    by (rule aborted_length)
  have "b \<in> need rest ?st \<or> fired_with e ?st b"
  proof (rule need_transfer [OF Skip.prems])
    fix call x
    assume call: "call \<in> set (Cancel c e # rest)" and x: "x \<in> call_targets st call"
    show "x \<in> need rest ?st \<or> fired_with e ?st x"
    proof (cases "call = Cancel c e")
      case True
      with x Skip.hyps(2) c show ?thesis
        by (simp add: fired_with_def)
    next
      case False
      with call have "call \<in> set rest"
        by simp
      moreover have "x \<in> call_targets ?st call"
        using x by (simp add: call_targets_cong [of ?st st])
      ultimately show ?thesis
        by (blast intro: need.root)
    qed
  next
    fix a cb x
    assume a: "\<not> aborted st a" and cb: "cb \<in> set (listeners st a)" and x: "x \<in> set (cb_targets cb)"
      and pre: "a \<in> need rest ?st \<or> fired_with e ?st a"
    from a have na: "\<not> aborted ?st a"
      by simp
    with pre have "a \<in> need rest ?st"
      unfolding fired_with_def by blast
    then have "x \<in> need rest ?st"
      using na by (rule need.link) (use cb x in simp_all)
    then show "x \<in> need rest ?st \<or> fired_with e ?st x" ..
  qed
  then have "fired_with e (run rest ?st) b"
    using Skip.IH ok by (auto intro: fired_with_final)
  with Skip.hyps(2) show ?case
    by simp
next
  case (Dispatch c fn rest st)
  let ?cb = "OnCanceled c fn"
  let ?w = "Invoke ?cb EventArg # rest"
  let ?st = "removeEventListener c ?cb st"
  have gone: "cb' \<in> set (listeners ?st q)" if "cb' \<in> set (listeners st q)" "q \<noteq> c \<or> cb' \<noteq> ?cb" for cb' q
    using that by (auto simp: in_set_remove1)
  have "b \<in> need ?w ?st"
  proof (rule need_transfer [OF Dispatch.prems, where F = "\<lambda>x. False", simplified])
    fix call x
    assume call: "call = Dispatch c ?cb \<or> call \<in> set rest" and x: "x \<in> call_targets st call"
    have head: "x \<in> need ?w ?st" if "x \<in> set (cb_targets ?cb)"
      using that by (intro need.root [of "Invoke ?cb EventArg"]) simp_all
    show "x \<in> need ?w ?st"
    proof (cases call)
      case (Cancel s' e')
      with call x show ?thesis
        by (intro need.root [of call]) auto
    next
      case (Invoke cb' a')
      with call x show ?thesis
        by (intro need.root [of call]) auto
    next
      case (Dispatch q cb')
      with x have reg: "cb' \<in> set (listeners st q)" and t: "x \<in> set (cb_targets cb')"
        by (simp_all split: if_splits)
      show ?thesis
      proof (cases "q = c \<and> cb' = ?cb")
        case True
        with t show ?thesis
          by (intro head) simp
      next
        case False
        then have "cb' \<in> set (listeners ?st q)"
          using reg by (intro gone) auto
        with t have "x \<in> call_targets ?st call"
          by (simp add: Dispatch)
        moreover from False call Dispatch have "call \<in> set ?w"
          by auto
        ultimately show ?thesis
          by (blast intro: need.root)
      qed
    qed
  next
    fix a cb' x
    assume a: "\<not> aborted st a" and cb: "cb' \<in> set (listeners st a)" and x: "x \<in> set (cb_targets cb')"
      and pre: "a \<in> need ?w ?st"
    show "x \<in> need ?w ?st"
    proof (cases "a = c \<and> cb' = ?cb")
      case True
      with x show ?thesis
        by (intro need.root [of "Invoke ?cb EventArg"]) simp_all
    next
      case False
      then have "cb' \<in> set (listeners ?st a)"
        using cb by (intro gone) auto
      moreover from a have "\<not> aborted ?st a"
        by simp
      ultimately show ?thesis
        using pre x by (blast intro: need.link)
    qed
  qed
  then have "fired_with e (run ?w ?st) b"
    by (rule Dispatch.IH)
  with Dispatch.hyps(2) show ?case
    by simp
next
  case (Gone c cb rest st)
  have "b \<in> need rest st"
  proof (rule need_same [OF Gone.prems])
    fix call x
    assume "call \<in> set (Dispatch c cb # rest)" and "x \<in> call_targets st call"
    with Gone.hyps(2) show "\<exists>call' \<in> set rest. x \<in> call_targets st call'"
      by auto
  qed simp_all
  then have "fired_with e (run rest st) b"
    by (rule Gone.IH)
  with Gone.hyps(2) show ?case
    by simp
next
  case (Wrapper c fn a rest st)
  have "b \<in> need (Invoke fn (ErrorArg e) # rest) st"
  proof (rule need_same [OF Wrapper.prems])
    fix call x
    assume "call \<in> set (Invoke (OnCanceled c fn) a # rest)" and "x \<in> call_targets st call"
    then show "\<exists>call' \<in> set (Invoke fn (ErrorArg e) # rest). x \<in> call_targets st call'"
      by auto
  qed simp_all
  then have "fired_with e (run (Invoke fn (ErrorArg e) # rest) st) b"
    by (rule Wrapper.IH)
  with Wrapper.hyps(2) show ?case
    by simp
next
  case (Handler c p a rest st)
  have "b \<in> need (Cancel c e # rest) st"
  proof (rule need_same [OF Handler.prems])
    fix call x
    assume "call \<in> set (Invoke (Handler c p) a # rest)" and "x \<in> call_targets st call"
    then show "\<exists>call' \<in> set (Cancel c e # rest). x \<in> call_targets st call'"
      by auto
  qed simp_all
  then have "fired_with e (run (Cancel c e # rest) st) b"
    by (rule Handler.IH)
  with Handler.hyps(2) show ?case
    by simp
next
  case (Remove p c q a rest st)
  let ?st = "removeEventListener p (Handler c q) st"
  from Remove.hyps(1) have wf: "well_formed st"
    by (simp add: conf_ok_def)
  have same: "listeners ?st x = listeners st x" for x
    using wf by (rule remove_bare_handler)
  have "b \<in> need rest ?st"
  proof (rule need_same [OF Remove.prems])
    fix call x
    assume "call \<in> set (Invoke (RemoveHandler p (Handler c q)) a # rest)" and "x \<in> call_targets st call"
    then have "call \<in> set rest" and "x \<in> call_targets ?st call"
      using call_targets_cong [of ?st st call, OF same] by auto
    then show "\<exists>call' \<in> set rest. x \<in> call_targets ?st call'"
      by auto
  qed (simp_all add: same del: listeners_upd)
  then have "fired_with e (run rest ?st) b"
    by (rule Remove.IH)
  then show ?case
    by simp
next
  case (Clear t a rest st)
  have "b \<in> need rest (clearTimeout t st)"
  proof (rule need_same [OF Clear.prems])
    fix call x
    assume "call \<in> set (Invoke (ClearTimeout t) a # rest)" and "x \<in> call_targets st call"
    then have "call \<in> set rest" and "x \<in> call_targets (clearTimeout t st) call"
      using call_targets_cong [of "clearTimeout t st" st call] by auto
    then show "\<exists>call' \<in> set rest. x \<in> call_targets (clearTimeout t st) call'"
      by auto
  qed simp_all
  then have "fired_with e (run rest (clearTimeout t st)) b"
    by (rule Clear.IH)
  then show ?case
    by simp
next
  case (Reject p rest st)
  let ?st = "promise_reject p (ErrorArg e) st"
  have "b \<in> need rest ?st"
  proof (rule need_same [OF Reject.prems])
    fix call x
    assume "call \<in> set (Invoke (Reject p) (ErrorArg e) # rest)" and "x \<in> call_targets st call"
    then have "call \<in> set rest" and "x \<in> call_targets ?st call"
      using call_targets_cong [of ?st st call] by auto
    then show "\<exists>call' \<in> set rest. x \<in> call_targets ?st call'"
      by auto
  qed simp_all
  then have "fired_with e (run rest ?st) b"
    by (rule Reject.IH)
  then show ?case
    by simp
qed

section \<open>Making a node\<close>

lemma live_in_store: "live st c \<Longrightarrow> ctx_in_store st c"
  by (simp add: live_def ctx_in_store_def split: option.splits)

lemma onCanceled_unfired:
  "\<not> aborted st s \<Longrightarrow> CancelSignal_onCanceled s fn st = addEventListener s (OnCanceled s fn) st"
  by (simp add: CancelSignal_onCanceled_def)

lemma WithCancel_init_live:
  assumes "live st parent"
  shows "aborted (snd (WithCancel_init parent st)) x = aborted st x"
    and "error_of (snd (WithCancel_init parent st)) x = error_of st x"
    and "set (listeners st x) \<subseteq> set (listeners (snd (WithCancel_init parent st)) x)"
    and "ctx_done parent = Some ps \<Longrightarrow>
          OnCanceled ps (Handler (length (signals st)) ps) \<in> set (listeners (snd (WithCancel_init parent st)) ps)"
proof -
  show "aborted (snd (WithCancel_init parent st)) x = aborted st x"
    using assms
    by (auto simp: WithCancel_init_def split_beta live_def onCanceled_unfired split: option.splits)
  show "error_of (snd (WithCancel_init parent st)) x = error_of st x"
    using assms
    by (auto simp: WithCancel_init_def split_beta live_def onCanceled_unfired split: option.splits)
  show "set (listeners st x) \<subseteq> set (listeners (snd (WithCancel_init parent st)) x)"
    using assms
    by (auto simp: WithCancel_init_def split_beta live_def onCanceled_unfired split: option.splits)
  show "OnCanceled ps (Handler (length (signals st)) ps) \<in> set (listeners (snd (WithCancel_init parent st)) ps)"
    if "ctx_done parent = Some ps"
    using assms that
    by (auto simp: WithCancel_init_def split_beta live_def onCanceled_unfired split: option.splits)
qed

lemma derive_shape:
  "fst (derive k parent st) = WithCancel parent (length (signals st))
    \<or> fst (derive k parent st) = WithTimeout parent (length (signals st))"
  by (cases k) (simp_all add: WithCancel_new_def WithTimeout_new_def split_beta)

lemma derive_length [simp]:
  "length (signals (snd (derive k parent st))) = Suc (length (signals st))"
  by (cases k) (simp_all add: WithCancel_new_def WithTimeout_new_def split_beta)

lemma derive_live:
  assumes "live st parent"
  shows "aborted (snd (derive k parent st)) x = aborted st x"
    and "error_of (snd (derive k parent st)) x = error_of st x"
    and "set (listeners st x) \<subseteq> set (listeners (snd (derive k parent st)) x)"
    and "ctx_done parent = Some ps \<Longrightarrow>
          OnCanceled ps (Handler (length (signals st)) ps) \<in> set (listeners (snd (derive k parent st)) ps)"
    and "live (snd (derive k parent st)) (fst (derive k parent st))"
proof -
  note init = WithCancel_init_live [OF assms]
  have unfired: "\<not> aborted (snd (setTimeout s ms (snd (WithCancel_init parent st)))) (length (signals st))"
    for s ms
    by (simp add: init(1))
  have ab: "aborted (snd (derive k parent st)) y = aborted st y" for y
    by (cases k) (simp_all add: WithCancel_new_def WithTimeout_new_def split_beta
        WithCancel_init_live(1) [OF assms] onCanceled_unfired [OF unfired])
  show "aborted (snd (derive k parent st)) x = aborted st x"
    by (rule ab)
  have "\<not> aborted (snd (derive k parent st)) (length (signals st))"
    by (simp add: ab)
  then show "live (snd (derive k parent st)) (fst (derive k parent st))"
    using derive_shape [of k parent st] by (auto simp: live_def)
  show "error_of (snd (derive k parent st)) x = error_of st x"
    by (cases k) (simp_all add: WithCancel_new_def WithTimeout_new_def split_beta init
        onCanceled_unfired [OF unfired])
  show "set (listeners st x) \<subseteq> set (listeners (snd (derive k parent st)) x)"
    using init(3) [of x]
    by (cases k) (auto simp: WithCancel_new_def WithTimeout_new_def split_beta
        onCanceled_unfired [OF unfired])
  show "OnCanceled ps (Handler (length (signals st)) ps) \<in> set (listeners (snd (derive k parent st)) ps)"
    if "ctx_done parent = Some ps"
    using init(4) [OF that]
    by (cases k) (auto simp: WithCancel_new_def WithTimeout_new_def split_beta
        onCanceled_unfired [OF unfired])
qed

section \<open>What a cancellation leaves alone\<close>

lemma ctx_cancel_node:
  "c = WithCancel p s \<or> c = WithTimeout p s \<Longrightarrow> ctx_cancel c st = CancelSignal_cancel s (Some Canceled) st"
  by auto

lemma closed_under_shrink:
  "closed_under st S \<Longrightarrow> (\<And>q. set (listeners st' q) \<subseteq> set (listeners st q)) \<Longrightarrow> closed_under st' S"
  unfolding closed_under_def by blast

lemma calls_in_Cons: "calls_in S (call # w) = (call_scope call \<subseteq> S \<and> calls_in S w)"
  unfolding calls_in_def by auto

lemma calls_in_append: "calls_in S (u @ w) = (calls_in S u \<and> calls_in S w)"
  unfolding calls_in_def by auto

lemma calls_in_dispatch:
  "closed_under st S \<Longrightarrow> c \<in> S \<Longrightarrow> calls_in S (map (Dispatch c) (listeners st c))"
  unfolding calls_in_def closed_under_def by auto

lemma run_frame:
  "closed_under st S \<Longrightarrow> calls_in S w \<Longrightarrow> x \<notin> S
    \<Longrightarrow> error_of (run w st) x = error_of st x \<and> aborted (run w st) x = aborted st x"
proof (induction w st rule: run.induct)
  case (1 st)
  show ?case by simp
next
  case (2 s e rest st)
  from "2.prems"(2) have s: "s \<in> S" and rest: "calls_in S rest"
    by (simp_all add: calls_in_Cons)
  with "2.prems"(3) have ne: "x \<noteq> s"
    by blast
  show ?case
  proof (cases "s < length (signals st) \<and> \<not> aborted st s")
    case True
    let ?st = "set_aborted s (set_error s e st)"
    have "closed_under ?st S"
      using "2.prems"(1) by (rule closed_under_shrink) simp
    moreover have "calls_in S (map (Dispatch s) (listeners st s) @ rest)"
      using "2.prems"(1) s rest by (simp add: calls_in_append calls_in_dispatch)
    ultimately have "error_of (run (map (Dispatch s) (listeners st s) @ rest) ?st) x = error_of ?st x
        \<and> aborted (run (map (Dispatch s) (listeners st s) @ rest) ?st) x = aborted ?st x"
      using "2.prems"(3) True by (intro "2.IH"(1)) simp_all
    with True ne show ?thesis
      by simp
  next
    case False
    have "closed_under (set_error s e st) S"
      using "2.prems"(1) by (rule closed_under_shrink) simp
    then have "error_of (run rest (set_error s e st)) x = error_of (set_error s e st) x
        \<and> aborted (run rest (set_error s e st)) x = aborted (set_error s e st) x"
      using rest "2.prems"(3) False by (intro "2.IH"(2)) simp_all
    with False ne show ?thesis
      by auto
  qed
next
  case (3 s cb rest st)
  from "3.prems"(2) have cb: "set (cb_targets cb) \<subseteq> S" and rest: "calls_in S rest"
    by (simp_all add: calls_in_Cons)
  show ?case
  proof (cases "cb \<in> set (listeners st s)")
    case True
    have "closed_under (removeEventListener s cb st) S"
      using "3.prems"(1) by (rule closed_under_shrink) (auto dest: in_set_remove1D)
    moreover have "calls_in S (Invoke cb EventArg # rest)"
      using cb rest by (simp add: calls_in_Cons)
    ultimately have "error_of (run (Invoke cb EventArg # rest) (removeEventListener s cb st)) x
          = error_of (removeEventListener s cb st) x
        \<and> aborted (run (Invoke cb EventArg # rest) (removeEventListener s cb st)) x
          = aborted (removeEventListener s cb st) x"
      using "3.prems"(3) True by (intro "3.IH"(1)) simp_all
    with True show ?thesis
      by simp
  next
    case False
    with "3.IH"(2) "3.prems"(1,3) rest show ?thesis
      by simp
  qed
next
  case (4 s fn a rest st)
  from "4.prems"(2) have "calls_in S (Invoke fn (ErrorArg (error_of st s)) # rest)"
    by (simp add: calls_in_Cons)
  with "4.IH" "4.prems"(1,3) show ?case
    by simp
next
  case (5 child parentSignal a rest st)
  from "5.prems"(2) have "calls_in S (Cancel child (error_of st parentSignal) # rest)"
    by (simp add: calls_in_Cons)
  with "5.IH" "5.prems"(1,3) show ?case
    by simp
next
  case (6 parentSignal handler a rest st)
  from "6.prems"(2) have rest: "calls_in S rest"
    by (simp add: calls_in_Cons)
  have "closed_under (removeEventListener parentSignal handler st) S"
    using "6.prems"(1) by (rule closed_under_shrink) (auto dest: in_set_remove1D)
  with "6.IH" rest "6.prems"(3) show ?case
    by simp
next
  case (7 t a rest st)
  from "7.prems"(2) have rest: "calls_in S rest"
    by (simp add: calls_in_Cons)
  have "closed_under (clearTimeout t st) S"
    using "7.prems"(1) by (rule closed_under_shrink) simp
  with "7.IH" rest "7.prems"(3) show ?case
    by simp
next
  case (8 p a rest st)
  from "8.prems"(2) have rest: "calls_in S rest"
    by (simp add: calls_in_Cons)
  have "closed_under (promise_reject p a st) S"
    using "8.prems"(1) by (rule closed_under_shrink) simp
  with "8.IH" rest "8.prems"(3) show ?case
    by simp
qed

lemma closed_under_reach: "closed_under st (reach st c)"
  unfolding closed_under_def by (blast intro: reach.step)

lemma cancel_frame:
  assumes "x \<notin> reach st c"
  shows "error_of (CancelSignal_cancel c e st) x = error_of st x"
    and "aborted (CancelSignal_cancel c e st) x = aborted st x"
proof -
  have "calls_in (reach st c) [Cancel c e]"
    by (simp add: calls_in_def reach.self)
  with closed_under_reach have "error_of (run [Cancel c e] st) x = error_of st x
      \<and> aborted (run [Cancel c e] st) x = aborted st x"
    using assms by (rule run_frame)
  then show "error_of (CancelSignal_cancel c e st) x = error_of st x"
    and "aborted (CancelSignal_cancel c e st) x = aborted st x"
    by (simp_all add: CancelSignal_cancel_def del: run.simps)
qed

lemma target_above:
  assumes "well_formed st" and "cb \<in> set (listeners st a)" and "b \<in> set (cb_targets cb)"
  shows "a < b"
proof -
  from assms(1,2) have "listener_ok (length (signals st)) (length (promises st)) a cb"
    by (rule well_formedD)
  then obtain fn where cb: "cb = OnCanceled a fn" and fn: "fn_ok (length (signals st)) (length (promises st)) a fn"
    by (rule listener_okE)
  from fn assms(3) show ?thesis
    unfolding cb by (cases fn) auto
qed

lemma reach_above:
  assumes "well_formed st" and "b \<in> reach st c"
  shows "c \<le> b"
  using assms(2)
proof (induction rule: reach.induct)
  case self
  show ?case by simp
next
  case (step a cb b)
  from assms(1) step.hyps(2,3) have "a < b"
    by (rule target_above)
  with step.IH show ?case
    by simp
qed

lemma node_ok_iff:
  "node_ok st parent s =
     (s < length (signals st)
      \<and> (\<forall>ps. ctx_done parent = Some ps \<longrightarrow> ps < s)
      \<and> (\<forall>q cb. cb \<in> set (listeners st q) \<longrightarrow> s \<in> set (cb_targets cb) \<longrightarrow> ctx_done parent = Some q))"
proof -
  have out: "listeners st q = []" if "\<not> q < length (signals st)" for q
    using that by (simp add: listeners_def)
  have "list_all (\<lambda>q. list_all (\<lambda>cb. s \<in> set (cb_targets cb) \<longrightarrow> ctx_done parent = Some q) (listeners st q))
            [0..<length (signals st)]
      = (\<forall>q cb. cb \<in> set (listeners st q) \<longrightarrow> s \<in> set (cb_targets cb) \<longrightarrow> ctx_done parent = Some q)"
    (is "?l = ?r")
  proof
    assume l: ?l
    show ?r
    proof (intro allI impI)
      fix q cb
      assume cb: "cb \<in> set (listeners st q)" and t: "s \<in> set (cb_targets cb)"
      then have "q < length (signals st)"
        using out [of q] by (cases "q < length (signals st)") simp_all
      with l cb t show "ctx_done parent = Some q"
        by (auto simp: list_all_iff)
    qed
  next
    assume ?r
    then show ?l
      by (auto simp: list_all_iff)
  qed
  then show ?thesis
    by (simp add: node_ok_def split: option.split)
qed

lemma cancel_sets_error:
  assumes "well_formed st" and "s < length (signals st)"
  shows "error_of (CancelSignal_cancel s e st) s = e"
proof -
  have ok: "conf_ok e [Cancel s e] st"
    using assms by (simp add: conf_ok_def)
  show ?thesis
  proof (cases "aborted st s")
    case True
    with assms(2) show ?thesis
      by (simp add: CancelSignal_cancel_def)
  next
    case False
    have "conf_ok e (map (Dispatch s) (listeners st s) @ []) (set_aborted s (set_error s e st))"
      using ok by (rule conf_ok_Cancel_fired)
    then have "error_of (run (map (Dispatch s) (listeners st s) @ []) (set_aborted s (set_error s e st))) s = e"
      by (rule error_stays) (simp add: assms(2))
    with False assms(2) show ?thesis
      by (simp add: CancelSignal_cancel_def)
  qed
qed

text \<open>
  In a well-formed store, let \<open>c\<close> and \<open>y\<close> be two different \<open>WithCancel\<close>
  or \<open>WithTimeout\<close> nodes made below the same parent. A call of \<open>cancel()\<close> on \<open>c\<close>
  makes \<open>error()\<close> of \<open>c\<close> \<open>Canceled\<close> and leaves the parent and the sibling as they
  were: \<open>error()\<close> of the parent and of \<open>y\<close> return what they returned before, and
  their signals are aborted exactly if they were before. The same holds of every signal
  that is not \<open>c\<close>'s own or reached from it through registered handlers.
\<close>

lemma cancel_leaves:
  assumes "well_formed st"
    and "c = WithCancel parent sc \<or> c = WithTimeout parent sc"
    and "y = WithCancel parent sy \<or> y = WithTimeout parent sy"
    and "node_ok st parent sc" and "node_ok st parent sy" and "sy \<noteq> sc"
  shows "ctx_error (ctx_cancel c st) c = Some Canceled
    \<and> ctx_error (ctx_cancel c st) parent = ctx_error st parent
    \<and> (\<forall>ps. ctx_done parent = Some ps \<longrightarrow> aborted (ctx_cancel c st) ps = aborted st ps)
    \<and> ctx_error (ctx_cancel c st) y = ctx_error st y
    \<and> aborted (ctx_cancel c st) sy = aborted st sy
    \<and> (\<forall>x. x \<notin> reach st sc \<longrightarrow>
          error_of (ctx_cancel c st) x = error_of st x \<and> aborted (ctx_cancel c st) x = aborted st x)"
proof -
  let ?e = "Some Canceled"
  have cancel: "ctx_cancel c st = CancelSignal_cancel sc ?e st"
    using assms(2) by (rule ctx_cancel_node)
  from assms(4) have sc: "sc < length (signals st)"
    and above: "\<And>ps. ctx_done parent = Some ps \<Longrightarrow> ps < sc"
    by (simp_all add: node_ok_iff)
  from assms(5) have only: "\<And>q cb. cb \<in> set (listeners st q) \<Longrightarrow> sy \<in> set (cb_targets cb)
      \<Longrightarrow> ctx_done parent = Some q"
    by (simp add: node_ok_iff)
  have parent_out: "ps \<notin> reach st sc" if "ctx_done parent = Some ps" for ps
  proof
    assume "ps \<in> reach st sc"
    with assms(1) have "sc \<le> ps"
      by (rule reach_above)
    with above [OF that] show False
      by simp
  qed
  have sibling_out: "sy \<notin> reach st sc"
  proof
    assume "sy \<in> reach st sc"
    then show False
    proof (cases rule: reach.cases)
      case self
      with assms(6) show False
        by simp
    next
      case (step a cb)
      from only [OF step(2,3)] have "ctx_done parent = Some a" .
      then have "a \<notin> reach st sc"
        by (rule parent_out)
      with step(1) show False
        by simp
    qed
  qed
  have own: "ctx_error (ctx_cancel c st) c = ?e"
    using assms(2) cancel_sets_error [OF assms(1) sc, of ?e] by (auto simp: cancel)
  have par_err: "ctx_error (ctx_cancel c st) parent = ctx_error st parent"
  proof (cases "ctx_done parent")
    case None
    then show ?thesis
      by (simp add: ctx_error_no_signal)
  next
    case (Some ps)
    then have "error_of (CancelSignal_cancel sc ?e st) ps = error_of st ps"
      by (intro cancel_frame parent_out)
    with Some show ?thesis
      by (simp add: ctx_error_done cancel)
  qed
  have par_ab: "aborted (ctx_cancel c st) ps = aborted st ps" if "ctx_done parent = Some ps" for ps
    unfolding cancel using that by (intro cancel_frame parent_out)
  have sib: "error_of (ctx_cancel c st) sy = error_of st sy" "aborted (ctx_cancel c st) sy = aborted st sy"
    unfolding cancel using sibling_out by (rule cancel_frame)+
  have sib_err: "ctx_error (ctx_cancel c st) y = ctx_error st y"
    using assms(3) sib(1) by auto
  have rest: "error_of (ctx_cancel c st) x = error_of st x \<and> aborted (ctx_cancel c st) x = aborted st x"
    if "x \<notin> reach st sc" for x
    unfolding cancel using that by (simp add: cancel_frame)
  from own par_err par_ab sib_err sib(2) rest show ?thesis
    by blast
qed

section \<open>Nodes stay nodes\<close>

lemma node_ok_step:
  assumes "node_ok st parent s"
    and "length (signals st) \<le> length (signals st')"
    and "\<And>q cb. cb \<in> set (listeners st' q) \<Longrightarrow> s \<in> set (cb_targets cb)
          \<Longrightarrow> cb \<in> set (listeners st q) \<or> ctx_done parent = Some q"
  shows "node_ok st' parent s"
  using assms unfolding node_ok_iff by (meson order_less_le_trans)

lemma node_ok_run: "node_ok st parent s \<Longrightarrow> node_ok (run w st) parent s"
  by (rule node_ok_step [where st = st]) (use listeners_run [of w st] in auto)

lemma node_ok_cancel: "node_ok st parent s \<Longrightarrow> node_ok (CancelSignal_cancel c e st) parent s"
  unfolding CancelSignal_cancel_def by (rule node_ok_run)

lemma node_ok_ctx_cancel: "node_ok st parent s \<Longrightarrow> node_ok (ctx_cancel c st) parent s"
  by (cases c) (simp_all add: node_ok_cancel)

lemma node_ok_clearTimeout: "node_ok st parent s \<Longrightarrow> node_ok (clearTimeout t st) parent s"
  by (rule node_ok_step [where st = st]) simp_all

lemma node_ok_timer_fire: "node_ok st parent s \<Longrightarrow> node_ok (timer_fire t st) parent s"
  by (simp add: timer_fire_def node_ok_cancel node_ok_clearTimeout)

lemma node_ok_delay:
  assumes "node_ok st parent s"
  shows "node_ok (delay ms st) parent s"
proof -
  have "node_ok st1 parent s \<Longrightarrow> node_ok (fold timer_fire ts st1) parent s" for ts st1
    by (induction ts arbitrary: st1) (simp_all add: node_ok_timer_fire)
  from this [OF assms] have "node_ok (fold timer_fire (due_timers st (clock st + ms)) st) parent s" .
  then show ?thesis
    unfolding delay_def by (rule node_ok_step) (simp_all add: listeners_def)
qed

lemma node_ok_onCanceled:
  assumes "node_ok st parent s" and "s \<in> set (cb_targets fn) \<Longrightarrow> ctx_done parent = Some q"
  shows "node_ok (CancelSignal_onCanceled q fn st) parent s"
proof (cases "aborted st q")
  case True
  have "node_ok (run [Invoke fn (ErrorArg (error_of st q))] st) parent s"
    using assms(1) by (rule node_ok_run)
  with True show ?thesis
    by (simp add: CancelSignal_onCanceled_def del: run.simps)
next
  case False
  have "node_ok (addEventListener q (OnCanceled q fn) st) parent s"
    using assms(1)
  proof (rule node_ok_step)
    fix q' cb
    assume "cb \<in> set (listeners (addEventListener q (OnCanceled q fn) st) q')"
      and "s \<in> set (cb_targets cb)"
    with assms(2) show "cb \<in> set (listeners st q') \<or> ctx_done parent = Some q'"
      by (auto split: if_splits)
  qed simp
  with False show ?thesis
    by (simp add: CancelSignal_onCanceled_def)
qed

lemma node_ok_CancelSignal_new: "node_ok st parent s \<Longrightarrow> node_ok (snd (CancelSignal_new st)) parent s"
  by (rule node_ok_step [where st = st]) simp_all

lemma node_ok_setTimeout: "node_ok st parent s \<Longrightarrow> node_ok (snd (setTimeout c ms st)) parent s"
  by (rule node_ok_step [where st = st]) simp_all

lemma node_ok_WithCancel_init:
  assumes "node_ok st parent s"
  shows "node_ok (snd (WithCancel_init ctx st)) parent s"
proof -
  from assms have s: "s \<noteq> length (signals st)"
    by (auto simp: node_ok_iff)
  have new: "node_ok (snd (CancelSignal_new st)) parent s"
    using assms by (rule node_ok_CancelSignal_new)
  show ?thesis
  proof (cases "ctx_done ctx")
    case None
    with new show ?thesis
      by (simp add: WithCancel_init_def split_beta)
  next
    case (Some ps)
    have "node_ok (CancelSignal_onCanceled ps (Handler (length (signals st)) ps) (snd (CancelSignal_new st)))
        parent s"
      using new by (rule node_ok_onCanceled) (use s in simp)
    then have "node_ok (CancelSignal_onCanceled (length (signals st))
        (RemoveHandler ps (Handler (length (signals st)) ps))
        (CancelSignal_onCanceled ps (Handler (length (signals st)) ps) (snd (CancelSignal_new st))))
        parent s"
      by (rule node_ok_onCanceled) simp
    with Some show ?thesis
      by (simp add: WithCancel_init_def split_beta)
  qed
qed

lemma node_ok_derive:
  assumes "node_ok st parent s"
  shows "node_ok (snd (derive k ctx st)) parent s"
proof (cases k)
  case CancelNode
  with assms show ?thesis
    by (simp add: WithCancel_new_def split_beta node_ok_WithCancel_init)
next
  case (TimeoutNode ms)
  have "node_ok (snd (setTimeout (length (signals st)) ms (snd (WithCancel_init ctx st)))) parent s"
    using assms by (intro node_ok_setTimeout node_ok_WithCancel_init)
  then have "node_ok (CancelSignal_onCanceled (length (signals st)) (ClearTimeout (length (timers st)))
      (snd (setTimeout (length (signals st)) ms (snd (WithCancel_init ctx st))))) parent s"
    by (rule node_ok_onCanceled) simp
  with TimeoutNode show ?thesis
    by (simp add: WithTimeout_new_def split_beta)
qed

lemma listeners_onCanceled:
  assumes "cb \<in> set (listeners (CancelSignal_onCanceled q fn st) x)"
  shows "cb \<in> set (listeners st x) \<or> (cb = OnCanceled q fn \<and> x = q)"
proof (cases "aborted st q")
  case True
  with assms have "cb \<in> set (listeners (run [Invoke fn (ErrorArg (error_of st q))] st) x)"
    by (simp add: CancelSignal_onCanceled_def del: run.simps)
  with listeners_run show ?thesis
    by blast
next
  case False
  with assms show ?thesis
    by (auto simp: CancelSignal_onCanceled_def split: if_splits)
qed

lemma listeners_WithCancel_init:
  assumes "cb \<in> set (listeners (snd (WithCancel_init ctx st)) x)"
  shows "cb \<in> set (listeners st x)
    \<or> (\<exists>ps. ctx_done ctx = Some ps \<and> cb = OnCanceled ps (Handler (length (signals st)) ps) \<and> x = ps)
    \<or> cb_targets cb = []"
proof (cases "ctx_done ctx")
  case None
  with assms show ?thesis
    by (simp add: WithCancel_init_def split_beta)
next
  case (Some ps)
  let ?n = "length (signals st)"
  let ?st2 = "CancelSignal_onCanceled ps (Handler ?n ps) (snd (CancelSignal_new st))"
  from assms Some have "cb \<in> set (listeners (CancelSignal_onCanceled ?n (RemoveHandler ps (Handler ?n ps)) ?st2) x)"
    by (simp add: WithCancel_init_def split_beta)
  then have "cb \<in> set (listeners ?st2 x) \<or> cb_targets cb = []"
    by (auto dest: listeners_onCanceled)
  then show ?thesis
    using Some by (auto dest!: listeners_onCanceled)
qed

lemma listeners_derive:
  assumes "cb \<in> set (listeners (snd (derive k ctx st)) x)"
  shows "cb \<in> set (listeners st x)
    \<or> (\<exists>ps. ctx_done ctx = Some ps \<and> cb = OnCanceled ps (Handler (length (signals st)) ps) \<and> x = ps)
    \<or> cb_targets cb = []"
proof (cases k)
  case CancelNode
  with assms have "cb \<in> set (listeners (snd (WithCancel_init ctx st)) x)"
    by (simp add: WithCancel_new_def split_beta)
  then show ?thesis
    by (rule listeners_WithCancel_init)
next
  case (TimeoutNode ms)
  with assms have "cb \<in> set (listeners (CancelSignal_onCanceled (length (signals st))
      (ClearTimeout (length (timers st)))
      (snd (setTimeout (length (signals st)) ms (snd (WithCancel_init ctx st))))) x)"
    by (simp add: WithTimeout_new_def split_beta)
  then have "cb \<in> set (listeners (snd (WithCancel_init ctx st)) x) \<or> cb_targets cb = []"
    by (auto dest: listeners_onCanceled)
  then show ?thesis
    using listeners_WithCancel_init by blast
qed

lemma node_ok_derive_new:
  assumes "well_formed st" and "ctx_in_store st parent"
  shows "node_ok (snd (derive k parent st)) parent (length (signals st))"
  unfolding node_ok_iff
proof (intro conjI allI impI)
  let ?n = "length (signals st)"
  show "?n < length (signals (snd (derive k parent st)))"
    by simp
  show "ps < ?n" if "ctx_done parent = Some ps" for ps
    using assms(2) that by (simp add: ctx_in_store_def)
  fix q cb
  assume cb: "cb \<in> set (listeners (snd (derive k parent st)) q)" and t: "?n \<in> set (cb_targets cb)"
  from listeners_derive [OF cb] t consider "cb \<in> set (listeners st q)"
    | ps where "ctx_done parent = Some ps" "q = ps"
    by auto
  then show "ctx_done parent = Some q"
  proof cases
    case 1
    with assms(1) have "listener_ok ?n (length (promises st)) q cb"
      by (rule well_formedD)
    then obtain fn where "cb = OnCanceled q fn" and "fn_ok ?n (length (promises st)) q fn"
      by (rule listener_okE)
    with t have False
      by (cases fn) auto
    then show ?thesis ..
  next
    case 2
    then show ?thesis
      by simp
  qed
qed

section \<open>The store after an operation\<close>

lemma length_signals_cancel [simp]:
  "length (signals (CancelSignal_cancel s e st)) = length (signals st)"
  by (simp add: CancelSignal_cancel_def del: run.simps)

lemma length_signals_ctx_cancel [simp]: "length (signals (ctx_cancel c st)) = length (signals st)"
  by (cases c) simp_all

lemma length_signals_timer_fire [simp]: "length (signals (timer_fire t st)) = length (signals st)"
  by (simp add: timer_fire_def)

lemma length_signals_delay [simp]: "length (signals (delay ms st)) = length (signals st)"
proof -
  have "length (signals (fold timer_fire ts st1)) = length (signals st1)" for ts st1
    by (induction ts arbitrary: st1) simp_all
  then show ?thesis
    by (simp add: delay_def)
qed

lemma fold_settle_view [simp]:
  "length (signals (fold (promise_settle p) ex st)) = length (signals st)"
  "listeners (fold (promise_settle p) ex st) x = listeners st x"
  "length (promises (fold (promise_settle p) ex st)) = length (promises st)"
proof (induction ex arbitrary: st)
  case Nil
  {
    case 1
    show ?case by simp
  next
    case 2
    show ?case by simp
  next
    case 3
    show ?case by simp
  }
next
  case (Cons a ex)
  {
    case 1
    show ?case using Cons(1) by (cases a) simp_all
  next
    case 2
    show ?case using Cons(2) by (cases a) simp_all
  next
    case 3
    show ?case using Cons(3) by (cases a) simp_all
  }
qed

lemma listeners_promises_update [simp]: "listeners (st\<lparr>promises := ps\<rparr>) q = listeners st q"
  by (simp add: listeners_def)

lemma length_signals_ContextPromise_new [simp]:
  "length (signals (snd (ContextPromise_new c ex st))) = length (signals st)"
  by (simp add: ContextPromise_new_def Promise_new_def split_beta split: option.split)

lemma node_ok_promise_reject: "node_ok st parent s \<Longrightarrow> node_ok (promise_reject p r st) parent s"
  by (rule node_ok_step [where st = st]) simp_all

lemma node_ok_promise_resolve: "node_ok st parent s \<Longrightarrow> node_ok (promise_resolve p v st) parent s"
  by (rule node_ok_step [where st = st]) simp_all

lemma node_ok_ContextPromise_new:
  assumes "node_ok st parent s"
  shows "node_ok (snd (ContextPromise_new c ex st)) parent s"
proof -
  have new: "node_ok (snd (Promise_new ex st)) parent s"
    using assms by (rule node_ok_step) (simp_all add: Promise_new_def)
  show ?thesis
  proof (cases "ctx_done c")
    case None
    with new show ?thesis
      by (simp add: ContextPromise_new_def split_beta)
  next
    case (Some q)
    have "node_ok (CancelSignal_onCanceled q (Reject (length (promises st))) (snd (Promise_new ex st))) parent s"
      using new by (rule node_ok_onCanceled) simp
    with Some show ?thesis
      by (simp add: ContextPromise_new_def split_beta Promise_new_def)
  qed
qed


section \<open>Handlers stay registered\<close>

lemma kept_or_fired:
  "conf_ok e w st \<Longrightarrow> cb \<in> set (listeners st q) \<Longrightarrow> cb \<notin> set (listeners (run w st) q)
    \<Longrightarrow> b \<in> set (cb_targets cb) \<Longrightarrow> fired_with e (run w st) b"
proof (induction w st rule: cascade_induct)
  case (Nil st)
  then show ?case
    by simp
next
  case (Fire c rest st)
  from Fire.hyps(2,3) Fire.prems Fire.IH show ?case
    by simp
next
  case (Skip c rest st)
  from Skip.hyps(2) Skip.prems Skip.IH show ?case
    by simp
next
  case (Dispatch c fn rest st)
  let ?cb = "OnCanceled c fn"
  let ?w = "Invoke ?cb EventArg # rest"
  let ?st = "removeEventListener c ?cb st"
  have eq: "run (Dispatch c ?cb # rest) st = run ?w ?st"
    using Dispatch.hyps(2) by simp
  show ?case
  proof (cases "cb \<in> set (listeners ?st q)")
    case True
    with Dispatch.prems Dispatch.IH show ?thesis
      unfolding eq by blast
  next
    case False
    with Dispatch.prems(1) have "q = c \<and> cb = ?cb"
      by (cases "cb = ?cb") (auto simp: in_set_remove1 split: if_splits)
    with Dispatch.prems(3) have "b \<in> need ?w ?st"
      by (intro need.root [of "Invoke ?cb EventArg"]) simp_all
    moreover have "conf_ok e ?w ?st"
      using Dispatch.hyps(1,2) by (rule conf_ok_Dispatch)
    ultimately show ?thesis
      unfolding eq by (rule need_run [rotated])
  qed
next
  case (Gone c cb' rest st)
  from Gone.hyps(2) Gone.prems Gone.IH show ?case
    by simp
next
  case (Wrapper c fn a rest st)
  from Wrapper.hyps(2) Wrapper.prems Wrapper.IH show ?case
    by simp
next
  case (Handler c p a rest st)
  from Handler.hyps(2) Handler.prems Handler.IH show ?case
    by simp
next
  case (Remove p c q' a rest st)
  from Remove.hyps have "well_formed st"
    by (simp add: conf_ok_def)
  then have "listeners (removeEventListener p (Handler c q') st) q = listeners st q"
    by (rule remove_bare_handler)
  with Remove.prems Remove.IH show ?case
    by simp
next
  case (Clear t a rest st)
  from Clear.prems Clear.IH show ?case
    by simp
next
  case (Reject p rest st)
  from Reject.prems Reject.IH show ?case
    by simp
qed

lemma linked_step:
  assumes "linked st parent s"
    and "aborted st s \<Longrightarrow> aborted st' s"
    and "\<And>ps. \<not> aborted st' s \<Longrightarrow> OnCanceled ps (Handler s ps) \<in> set (listeners st ps)
          \<Longrightarrow> OnCanceled ps (Handler s ps) \<in> set (listeners st' ps)"
  shows "linked st' parent s"
  using assms unfolding linked_def by (auto split: option.splits)

lemma linked_run:
  assumes "conf_ok e w st" and "linked st parent s"
  shows "linked (run w st) parent s"
  using assms(2)
proof (rule linked_step)
  show "aborted (run w st) s" if "aborted st s"
    using that by (rule aborted_run)
  show "OnCanceled ps (Handler s ps) \<in> set (listeners (run w st) ps)"
    if "\<not> aborted (run w st) s" "OnCanceled ps (Handler s ps) \<in> set (listeners st ps)" for ps
  proof (rule ccontr)
    assume "OnCanceled ps (Handler s ps) \<notin> set (listeners (run w st) ps)"
    with assms(1) that(2) have "fired_with e (run w st) s"
      by (rule kept_or_fired) simp
    with that(1) show False
      by (simp add: fired_with_def)
  qed
qed

lemma linked_cancel:
  assumes "well_formed st" and "linked st parent s"
  shows "linked (CancelSignal_cancel c e st) parent s"
proof (cases "c < length (signals st)")
  case True
  with assms(1) have "conf_ok e [Cancel c e] st"
    by (simp add: conf_ok_def)
  then show ?thesis
    unfolding CancelSignal_cancel_def using assms(2) by (rule linked_run)
next
  case False
  then have "CancelSignal_cancel c e st = set_error c e st"
    by (simp add: CancelSignal_cancel_def)
  with assms(2) show ?thesis
    by (auto simp: linked_def split: option.splits)
qed

lemma linked_ctx_cancel: "well_formed st \<Longrightarrow> linked st parent s \<Longrightarrow> linked (ctx_cancel c st) parent s"
  by (cases c) (simp_all add: linked_cancel)

lemma linked_clearTimeout: "linked st parent s \<Longrightarrow> linked (clearTimeout t st) parent s"
  by (auto simp: linked_def split: option.splits)

lemma linked_timer_fire:
  "well_formed st \<Longrightarrow> linked st parent s \<Longrightarrow> linked (timer_fire t st) parent s"
  by (simp add: timer_fire_def linked_cancel linked_clearTimeout well_formed_clearTimeout)

lemma linked_delay:
  assumes "well_formed st" and "linked st parent s"
  shows "linked (delay ms st) parent s"
proof -
  have "linked (fold timer_fire ts st1) parent s" if "well_formed st1" "linked st1 parent s" for ts st1
    using that
    by (induction ts arbitrary: st1) (simp_all add: linked_timer_fire well_formed_timer_fire)
  from this [OF assms] show ?thesis
    unfolding delay_def by (rule linked_step) (simp_all add: aborted_def listeners_def)
qed

lemma fn_ok_carries:
  "fn_ok (length (signals st)) (length (promises st)) q fn \<Longrightarrow> cb_carries (error_of st q) st fn"
  by (cases fn) simp_all

lemma aborted_onCanceled: "aborted st x \<Longrightarrow> aborted (CancelSignal_onCanceled q fn st) x"
  by (simp add: CancelSignal_onCanceled_def aborted_run del: run.simps)

lemma linked_onCanceled:
  assumes "well_formed st" and "fn_ok (length (signals st)) (length (promises st)) q fn"
    and "linked st parent s"
  shows "linked (CancelSignal_onCanceled q fn st) parent s"
proof (cases "aborted st q")
  case True
  have "conf_ok (error_of st q) [Invoke fn (ErrorArg (error_of st q))] st"
    using assms(1) fn_ok_carries [OF assms(2)] by (simp add: conf_ok_def)
  then have "linked (run [Invoke fn (ErrorArg (error_of st q))] st) parent s"
    using assms(3) by (rule linked_run)
  with True show ?thesis
    by (simp add: CancelSignal_onCanceled_def del: run.simps)
next
  case False
  have "linked (addEventListener q (OnCanceled q fn) st) parent s"
    using assms(3) by (rule linked_step) (auto split: if_splits)
  with False show ?thesis
    by (simp add: CancelSignal_onCanceled_def)
qed

lemma linked_CancelSignal_new: "linked st parent s \<Longrightarrow> linked (snd (CancelSignal_new st)) parent s"
  by (rule linked_step [where st = st])
    (auto simp: CancelSignal_new_def aborted_def listeners_def nth_append)

lemma linked_setTimeout: "linked st parent s \<Longrightarrow> linked (snd (setTimeout c ms st)) parent s"
  by (rule linked_step [where st = st]) (simp_all add: setTimeout_def aborted_def listeners_def)

lemma linked_promise_reject: "linked st parent s \<Longrightarrow> linked (promise_reject p r st) parent s"
  by (auto simp: linked_def split: option.splits)

lemma linked_promise_resolve: "linked st parent s \<Longrightarrow> linked (promise_resolve p v st) parent s"
  by (auto simp: linked_def split: option.splits)


lemma linked_WithCancel_init:
  assumes "well_formed st" and "ctx_in_store st ctx" and "linked st parent s"
  shows "linked (snd (WithCancel_init ctx st)) parent s"
proof (cases "ctx_done ctx")
  case None
  with assms(3) show ?thesis
    by (simp add: WithCancel_init_def split_beta linked_CancelSignal_new)
next
  case (Some ps)
  with assms(2) have ps: "ps < length (signals st)"
    by (simp add: ctx_in_store_def)
  let ?n = "length (signals st)"
  let ?st1 = "snd (CancelSignal_new st)"
  let ?st2 = "CancelSignal_onCanceled ps (Handler ?n ps) ?st1"
  have w1: "well_formed ?st1"
    using assms(1) by (rule well_formed_CancelSignal_new)
  then have w2: "well_formed ?st2"
    by (rule well_formed_onCanceled) (simp add: ps)
  have l1: "linked ?st1 parent s"
    using assms(3) by (rule linked_CancelSignal_new)
  have l2: "linked ?st2 parent s"
    by (rule linked_onCanceled [OF w1 _ l1]) (simp add: ps)
  have "linked (CancelSignal_onCanceled ?n (RemoveHandler ps (Handler ?n ps)) ?st2) parent s"
    by (rule linked_onCanceled [OF w2 _ l2]) simp
  with Some show ?thesis
    by (simp add: WithCancel_init_def split_beta)
qed

lemma linked_derive:
  assumes "well_formed st" and "ctx_in_store st ctx" and "linked st parent s"
  shows "linked (snd (derive k ctx st)) parent s"
proof -
  let ?st1 = "snd (WithCancel_init ctx st)"
  have w1: "well_formed ?st1"
    using assms(1,2) by (rule well_formed_WithCancel_init)
  have l1: "linked ?st1 parent s"
    using assms by (rule linked_WithCancel_init)
  show ?thesis
  proof (cases k)
    case CancelNode
    with l1 show ?thesis
      by (simp add: WithCancel_new_def split_beta)
  next
    case (TimeoutNode ms)
    let ?st2 = "snd (setTimeout (length (signals st)) ms ?st1)"
    have w2: "well_formed ?st2"
      using w1 by (rule well_formed_setTimeout)
    have l2: "linked ?st2 parent s"
      using l1 by (rule linked_setTimeout)
    have "linked (CancelSignal_onCanceled (length (signals st)) (ClearTimeout (length (timers st))) ?st2)
        parent s"
      by (rule linked_onCanceled [OF w2 _ l2]) simp
    with TimeoutNode show ?thesis
      by (simp add: WithTimeout_new_def split_beta)
  qed
qed

lemma aborted_derive: "aborted (snd (WithCancel_init ctx st)) x \<Longrightarrow> aborted (snd (derive k ctx st)) x"
  by (cases k) (simp_all add: WithCancel_new_def WithTimeout_new_def split_beta aborted_onCanceled)

lemma linked_derive_new:
  assumes "ctx_in_store st parent"
  shows "linked (snd (derive k parent st)) parent (length (signals st))"
proof (cases "ctx_done parent")
  case None
  then show ?thesis
    by (simp add: linked_def)
next
  case (Some ps)
  show ?thesis
  proof (cases "aborted st ps")
    case True
    with Some have "aborted (snd (WithCancel_init parent st)) (length (signals st))"
      by (rule WithCancel_init_fired)
    then have "aborted (snd (derive k parent st)) (length (signals st))"
      by (rule aborted_derive)
    with Some show ?thesis
      by (simp add: linked_def)
  next
    case False
    with Some assms have "live st parent"
      by (simp add: live_def ctx_in_store_def)
    then have "OnCanceled ps (Handler (length (signals st)) ps) \<in> set (listeners (snd (derive k parent st)) ps)"
      using Some by (rule derive_live)
    with Some show ?thesis
      by (simp add: linked_def)
  qed
qed

lemma aborted_promises_update [simp]: "aborted (st\<lparr>promises := ps\<rparr>) x = aborted st x"
  by (simp add: aborted_def)

lemma aborted_fold_settle [simp]: "aborted (fold (promise_settle p) ex st) x = aborted st x"
proof (induction ex arbitrary: st)
  case Nil
  show ?case by simp
next
  case (Cons a ex)
  then show ?case by (cases a) simp_all
qed

lemma linked_ContextPromise_new:
  assumes "well_formed st" and "linked st parent s"
  shows "linked (snd (ContextPromise_new c ex st)) parent s"
proof -
  have w: "well_formed (snd (Promise_new ex st))"
    using assms(1) by (rule well_formed_step) (simp_all add: Promise_new_def)
  have new: "linked (snd (Promise_new ex st)) parent s"
    using assms(2) by (rule linked_step) (simp_all add: Promise_new_def)
  show ?thesis
  proof (cases "ctx_done c")
    case None
    with new show ?thesis
      by (simp add: ContextPromise_new_def split_beta)
  next
    case (Some q)
    have "linked (CancelSignal_onCanceled q (Reject (length (promises st))) (snd (Promise_new ex st))) parent s"
      by (rule linked_onCanceled [OF w _ new]) (simp add: Promise_new_def)
    with Some show ?thesis
      by (simp add: ContextPromise_new_def split_beta Promise_new_def)
  qed
qed

section \<open>Fired signals keep no listeners\<close>

lemma cleared_iff: "cleared st = (\<forall>q. aborted st q \<longrightarrow> listeners st q = [])"
proof
  assume c: "cleared st"
  show "\<forall>q. aborted st q \<longrightarrow> listeners st q = []"
  proof (intro allI impI)
    fix q
    assume a: "aborted st q"
    then have "q < length (signals st)"
      by (rule aborted_length)
    with c a show "listeners st q = []"
      by (simp add: cleared_def list_all_iff)
  qed
next
  assume "\<forall>q. aborted st q \<longrightarrow> listeners st q = []"
  then show "cleared st"
    by (simp add: cleared_def list_all_iff)
qed

lemma count_list_remove1:
  "count_list (remove1 a xs) b = (if a = b then count_list xs b - 1 else count_list xs b)"
  by (induction xs) auto

lemma count_list_Dispatch [simp]: "count_list (map (Dispatch s) xs) (Dispatch q cb) = (if q = s then count_list xs cb else 0)"
  by (induction xs) auto

lemma run_clears:
  "\<forall>q cb. aborted st q \<longrightarrow> count_list (listeners st q) cb \<le> count_list w (Dispatch q cb)
    \<Longrightarrow> cleared (run w st)"
proof (induction w st rule: run.induct)
  case (1 st)
  have "listeners st q = []" if "aborted st q" for q
  proof -
    from 1 that have zero: "count_list (listeners st q) cb = 0" for cb
      by simp
    show ?thesis
    proof (cases "listeners st q")
      case Nil
      then show ?thesis .
    next
      case (Cons a xs)
      with zero [of a] show ?thesis
        by simp
    qed
  qed
  then show ?case
    by (simp add: cleared_iff)
next
  case (2 s e rest st)
  show ?case
  proof (cases "s < length (signals st) \<and> \<not> aborted st s")
    case True
    have "cleared (run (map (Dispatch s) (listeners st s) @ rest) (set_aborted s (set_error s e st)))"
    proof (rule "2.IH"(1) [OF True], intro allI impI)
      fix q cb
      assume "aborted (set_aborted s (set_error s e st)) q"
      then show "count_list (listeners (set_aborted s (set_error s e st)) q) cb
          \<le> count_list (map (Dispatch s) (listeners st s) @ rest) (Dispatch q cb)"
        using "2.prems" [rule_format, of q cb] by (auto split: if_splits)
    qed
    with True show ?thesis
      by simp
  next
    case False
    have "cleared (run rest (set_error s e st))"
      by (rule "2.IH"(2) [OF False]) (use "2.prems" in simp)
    with False show ?thesis
      by auto
  qed
next
  case (3 s cb rest st)
  show ?case
  proof (cases "cb \<in> set (listeners st s)")
    case True
    have "cleared (run (Invoke cb EventArg # rest) (removeEventListener s cb st))"
    proof (rule "3.IH"(1) [OF True], intro allI impI)
      fix q cb'
      assume "aborted (removeEventListener s cb st) q"
      then have "aborted st q"
        by simp
      with "3.prems" have le: "count_list (listeners st q) cb' \<le> count_list (Dispatch s cb # rest) (Dispatch q cb')"
        by blast
      show "count_list (listeners (removeEventListener s cb st) q) cb'
          \<le> count_list (Invoke cb EventArg # rest) (Dispatch q cb')"
        using le by (auto simp: count_list_remove1 split: if_splits)
    qed
    with True show ?thesis
      by simp
  next
    case False
    have "cleared (run rest st)"
    proof (rule "3.IH"(2) [OF False], intro allI impI)
      fix q cb'
      assume "aborted st q"
      with "3.prems" have "count_list (listeners st q) cb' \<le> count_list (Dispatch s cb # rest) (Dispatch q cb')"
        by blast
      with False show "count_list (listeners st q) cb' \<le> count_list rest (Dispatch q cb')"
        by (auto split: if_splits)
    qed
    with False show ?thesis
      by simp
  qed
next
  case (4 s fn a rest st)
  then show ?case by simp
next
  case (5 child parentSignal a rest st)
  then show ?case by simp
next
  case (6 parentSignal handler a rest st)
  have "cleared (run rest (removeEventListener parentSignal handler st))"
  proof (rule "6.IH", intro allI impI)
    fix q cb
    assume "aborted (removeEventListener parentSignal handler st) q"
    then have "aborted st q"
      by simp
    with "6.prems" have "count_list (listeners st q) cb \<le> count_list rest (Dispatch q cb)"
      by simp
    then show "count_list (listeners (removeEventListener parentSignal handler st) q) cb
        \<le> count_list rest (Dispatch q cb)"
      by (auto simp: count_list_remove1)
  qed
  then show ?case by simp
next
  case (7 t a rest st)
  then show ?case by simp
next
  case (8 p a rest st)
  then show ?case by simp
qed

lemma cleared_run: "cleared st \<Longrightarrow> cleared (run w st)"
  by (rule run_clears) (simp add: cleared_iff)


lemma cleared_step:
  assumes "cleared st"
    and "\<And>q. aborted st' q \<Longrightarrow> listeners st' q = [] \<or> (aborted st q \<and> listeners st' q = listeners st q)"
  shows "cleared st'"
  using assms unfolding cleared_iff by metis

lemma cleared_init: "cleared init"
  by (simp add: cleared_def init_def)

lemma cleared_cancel: "cleared st \<Longrightarrow> cleared (CancelSignal_cancel c e st)"
  unfolding CancelSignal_cancel_def by (rule cleared_run)

lemma cleared_ctx_cancel: "cleared st \<Longrightarrow> cleared (ctx_cancel c st)"
  by (cases c) (simp_all add: cleared_cancel)

lemma cleared_clearTimeout: "cleared st \<Longrightarrow> cleared (clearTimeout t st)"
  by (rule cleared_step [where st = st]) simp_all

lemma cleared_timer_fire: "cleared st \<Longrightarrow> cleared (timer_fire t st)"
  by (simp add: timer_fire_def cleared_cancel cleared_clearTimeout)

lemma clock_update_view [simp]:
  "aborted (st\<lparr>clock := c\<rparr>) x = aborted st x"
  "error_of (st\<lparr>clock := c\<rparr>) x = error_of st x"
  "listeners (st\<lparr>clock := c\<rparr>) x = listeners st x"
  by (simp_all add: aborted_def error_of_def listeners_def)

lemma cleared_delay:
  assumes "cleared st"
  shows "cleared (delay ms st)"
proof -
  have "cleared (fold timer_fire ts st1)" if "cleared st1" for ts st1
    using that by (induction ts arbitrary: st1) (simp_all add: cleared_timer_fire)
  from this [OF assms, of "due_timers st (clock st + ms)"] show ?thesis
    unfolding delay_def by (rule cleared_step) simp
qed

lemma cleared_onCanceled:
  assumes "cleared st"
  shows "cleared (CancelSignal_onCanceled q fn st)"
proof (cases "aborted st q")
  case True
  with assms show ?thesis
    by (simp add: CancelSignal_onCanceled_def cleared_run del: run.simps)
next
  case False
  have "cleared (addEventListener q (OnCanceled q fn) st)"
    using assms by (rule cleared_step) (use False in auto)
  with False show ?thesis
    by (simp add: CancelSignal_onCanceled_def)
qed

lemma cleared_CancelSignal_new: "cleared st \<Longrightarrow> cleared (snd (CancelSignal_new st))"
  by (rule cleared_step [where st = st])
    (auto simp: CancelSignal_new_def aborted_def listeners_def nth_append)

lemma cleared_setTimeout: "cleared st \<Longrightarrow> cleared (snd (setTimeout c ms st))"
  by (rule cleared_step [where st = st]) simp_all

lemma cleared_promise_reject: "cleared st \<Longrightarrow> cleared (promise_reject p r st)"
  by (rule cleared_step [where st = st]) simp_all

lemma cleared_promise_resolve: "cleared st \<Longrightarrow> cleared (promise_resolve p v st)"
  by (rule cleared_step [where st = st]) simp_all

lemma cleared_WithCancel_init: "cleared st \<Longrightarrow> cleared (snd (WithCancel_init ctx st))"
  by (simp add: WithCancel_init_def split_beta cleared_CancelSignal_new cleared_onCanceled
      split: option.split)

lemma cleared_derive: "cleared st \<Longrightarrow> cleared (snd (derive k ctx st))"
  by (cases k)
    (simp_all add: WithCancel_new_def WithTimeout_new_def split_beta cleared_WithCancel_init
      cleared_setTimeout cleared_onCanceled)

lemma cleared_ContextPromise_new:
  assumes "cleared st"
  shows "cleared (snd (ContextPromise_new c ex st))"
proof -
  have "cleared (snd (Promise_new ex st))"
    using assms by (rule cleared_step) (simp add: Promise_new_def)
  then show ?thesis
    by (simp add: ContextPromise_new_def split_beta cleared_onCanceled split: option.split)
qed

text \<open>A node whose parent has fired has fired.\<close>

lemma fired_parent_fired_child:
  assumes "cleared st" and "linked st parent s" and "ctx_done parent = Some ps" and "aborted st ps"
  shows "aborted st s"
  using assms by (auto simp: cleared_iff linked_def)

section \<open>Ancestors\<close>

lemma below_refl [simp]: "below c c"
  by (cases c) simp_all

lemma below_parent: "ctx_parent y = Some p \<Longrightarrow> below c y = (c = y \<or> below c p)"
  by (cases y) auto

lemma below_trans: "below a b \<Longrightarrow> below b c \<Longrightarrow> below a c"
  by (induction c) auto

lemma below_size: "below c y \<Longrightarrow> size c \<le> size y"
  by (induction y) auto

lemma not_below_parent: "ctx_parent c = Some p \<Longrightarrow> \<not> below c p"
  by (cases c) (auto dest: below_size)

lemma parents_madeD: "parents_made cs \<Longrightarrow> c \<in> set cs \<Longrightarrow> ctx_parent c = Some p \<Longrightarrow> p \<in> set cs"
  by (auto simp: parents_made_def list_all_iff)

lemma parents_made_snoc:
  "parents_made cs \<Longrightarrow> ctx_parent c = Some p \<Longrightarrow> p \<in> set cs \<Longrightarrow> parents_made (cs @ [c])"
  by (auto simp: parents_made_def list_all_iff split: option.splits)

text \<open>The node whose signal a context shows as \<open>done()\<close> is the context or above it.\<close>

lemma done_owner:
  assumes "parents_made cs" and "y \<in> set cs" and "ctx_done y = Some a"
  shows "\<exists>z \<in> set cs. own_signal z = Some a \<and> below z y"
  using assms(2,3)
proof (induction y)
  case Background
  then show ?case by simp
next
  case (WithValue y k v)
  from assms(1) WithValue.prems(1) have "y \<in> set cs"
    by (rule parents_madeD) simp
  with WithValue.IH WithValue.prems(2) obtain z where "z \<in> set cs" "own_signal z = Some a" "below z y"
    by auto
  then show ?case
    by auto
next
  case (WithCancel y s)
  then show ?case
    by (intro bexI [of _ "WithCancel y s"]) simp_all
next
  case (WithTimeout y s)
  then show ?case
    by (intro bexI [of _ "WithTimeout y s"]) simp_all
qed

section \<open>What holds after every program\<close>

lemma ctx_ok_in_store: "ctx_ok st c \<Longrightarrow> ctx_in_store st c"
  by (cases c) (simp_all add: node_ok_iff ctx_in_store_def)

lemma ctx_in_store_mono:
  "ctx_in_store st c \<Longrightarrow> length (signals st) \<le> length (signals st') \<Longrightarrow> ctx_in_store st' c"
  by (auto simp: ctx_in_store_def split: option.splits)

lemma ctx_ok_step:
  assumes "ctx_ok st c"
    and "length (signals st) \<le> length (signals st')"
    and "\<And>parent s. node_ok st parent s \<Longrightarrow> node_ok st' parent s"
    and "\<And>parent s. linked st parent s \<Longrightarrow> linked st' parent s"
  shows "ctx_ok st' c"
  using assms by (cases c) (auto intro: ctx_in_store_mono)

lemma ctx_done_WithValue: "WithValue_new parent k v = Inr c \<Longrightarrow> ctx_done c = ctx_done parent"
  by (auto simp: WithValue_new_def split: if_splits)

lemma own_signal_WithValue: "WithValue_new parent k v = Inr c \<Longrightarrow> own_signal c = None"
  by (auto simp: WithValue_new_def split: if_splits)

lemma ctx_ok_WithValue:
  "WithValue_new parent k v = Inr c \<Longrightarrow> ctx_ok st parent \<Longrightarrow> ctx_ok st c"
  using ctx_ok_in_store [of st parent]
  by (auto simp: WithValue_new_def ctx_in_store_def split: if_splits)

lemma own_signal_bound: "ctx_ok st c \<Longrightarrow> own_signal c = Some s \<Longrightarrow> s < length (signals st)"
  by (cases c) (auto simp: node_ok_iff)

lemma world_ok_store:
  assumes "world_ok (cs, st)" and "well_formed st'"
    and "length (signals st) \<le> length (signals st')"
    and "\<And>parent s. node_ok st parent s \<Longrightarrow> node_ok st' parent s"
    and "\<And>parent s. linked st parent s \<Longrightarrow> linked st' parent s"
  shows "world_ok (cs, st')"
  using assms unfolding world_ok_def by (auto intro: ctx_ok_step)

lemma world_ok_value:
  assumes "world_ok (cs, st)" and "i < length cs" and "WithValue_new (cs ! i) k v = Inr c"
  shows "world_ok (cs @ [c], st)"
proof -
  have none: "own_signal c = None"
    using assms(3) by (rule own_signal_WithValue)
  have "ctx_ok st (cs ! i)"
    using assms(1,2) by (simp add: world_ok_def)
  with assms(3) have c: "ctx_ok st c"
    by (rule ctx_ok_WithValue)
  have old: "a < length cs" if "a < Suc (length cs)" "own_signal ((cs @ [c]) ! a) \<noteq> None" for a
    using that none by (cases "a = length cs") simp_all
  have "a = b" if "a < Suc (length cs)" "b < Suc (length cs)"
    "own_signal ((cs @ [c]) ! a) \<noteq> None" "own_signal ((cs @ [c]) ! a) = own_signal ((cs @ [c]) ! b)" for a b
  proof -
    have a: "a < length cs"
      using that(1,3) by (rule old)
    have b: "b < length cs"
      using that(2) that(3) [unfolded that(4)] by (rule old)
    from that(3,4) a b assms(1) show ?thesis
      by (simp add: world_ok_def nth_append)
  qed
  note inj = this
  from assms(1) have w: "well_formed st" and old_ok: "\<And>x. x \<in> set cs \<Longrightarrow> ctx_ok st x"
    by (simp_all add: world_ok_def)
  show ?thesis
    unfolding world_ok_def fst_conv snd_conv
  proof (intro conjI allI impI ballI)
    show "well_formed st"
      by (rule w)
    show "ctx_ok st x" if "x \<in> set (cs @ [c])" for x
      using that c old_ok by auto
    show "a = b" if "a < length (cs @ [c])" "b < length (cs @ [c])"
      "own_signal ((cs @ [c]) ! a) \<noteq> None \<and> own_signal ((cs @ [c]) ! a) = own_signal ((cs @ [c]) ! b)" for a b
    proof -
      from that(3) have 1: "own_signal ((cs @ [c]) ! a) \<noteq> None"
        and 2: "own_signal ((cs @ [c]) ! a) = own_signal ((cs @ [c]) ! b)"
        by blast+
      from that(1,2) have "a < Suc (length cs)" "b < Suc (length cs)"
        by simp_all
      then show ?thesis
        using 1 2 by (rule inj)
    qed
  qed
qed

lemma world_ok_node:
  assumes "world_ok (cs, st)" and "i < length cs"
  shows "world_ok (cs @ [fst (derive k (cs ! i) st)], snd (derive k (cs ! i) st))"
proof -
  let ?c = "fst (derive k (cs ! i) st)" and ?st = "snd (derive k (cs ! i) st)"
  let ?n = "length (signals st)"
  from assms have w: "well_formed st" and p: "ctx_ok st (cs ! i)"
    by (simp_all add: world_ok_def)
  from p have pin: "ctx_in_store st (cs ! i)"
    by (rule ctx_ok_in_store)
  have w': "well_formed ?st"
    using w pin by (rule well_formed_derive)
  have new: "node_ok ?st (cs ! i) ?n"
    using w pin by (rule node_ok_derive_new)
  have link: "linked ?st (cs ! i) ?n"
    using pin by (rule linked_derive_new)
  have own: "own_signal ?c = Some ?n" and c: "ctx_ok ?st ?c"
    using derive_shape [of k "cs ! i" st] new link by auto
  have old: "ctx_ok ?st x" if "x \<in> set cs" for x
  proof -
    from that assms(1) have "ctx_ok st x"
      by (simp add: world_ok_def)
    then show ?thesis
      by (rule ctx_ok_step) (simp_all add: node_ok_derive linked_derive [OF w pin])
  qed
  have below: "own_signal (cs ! a) \<noteq> Some ?n" if "a < length cs" for a
  proof
    assume "own_signal (cs ! a) = Some ?n"
    moreover have "ctx_ok st (cs ! a)"
      using that assms(1) by (simp add: world_ok_def)
    ultimately have "?n < ?n"
      by (rule own_signal_bound [rotated])
    then show False
      by simp
  qed
  have "a = b" if "a < Suc (length cs)" "b < Suc (length cs)"
    "own_signal ((cs @ [?c]) ! a) \<noteq> None" "own_signal ((cs @ [?c]) ! a) = own_signal ((cs @ [?c]) ! b)" for a b
  proof (cases "a = length cs")
    case True
    show ?thesis
    proof (cases "b = length cs")
      case True
      with \<open>a = length cs\<close> show ?thesis
        by simp
    next
      case False
      with that(2) have b: "b < length cs"
        by simp
      with that(4) True own below [OF b] show ?thesis
        by (simp add: nth_append)
    qed
  next
    case False
    with that(1) have a: "a < length cs"
      by simp
    show ?thesis
    proof (cases "b = length cs")
      case True
      with that(4) a own below [OF a] show ?thesis
        by (simp add: nth_append)
    next
      case False
      with that(2) have b: "b < length cs"
        by simp
      from that(3,4) a b assms(1) show ?thesis
        by (simp add: world_ok_def nth_append)
    qed
  qed
  note inj = this
  show ?thesis
    unfolding world_ok_def fst_conv snd_conv
  proof (intro conjI allI impI ballI)
    show "well_formed ?st"
      by (rule w')
    show "ctx_ok ?st x" if "x \<in> set (cs @ [?c])" for x
      using that c old by auto
    show "a = b" if "a < length (cs @ [?c])" "b < length (cs @ [?c])"
      "own_signal ((cs @ [?c]) ! a) \<noteq> None \<and> own_signal ((cs @ [?c]) ! a) = own_signal ((cs @ [?c]) ! b)" for a b
    proof -
      from that(3) have 1: "own_signal ((cs @ [?c]) ! a) \<noteq> None"
        and 2: "own_signal ((cs @ [?c]) ! a) = own_signal ((cs @ [?c]) ! b)"
        by blast+
      from that(1,2) have "a < Suc (length cs)" "b < Suc (length cs)"
        by simp_all
      then show ?thesis
        using 1 2 by (rule inj)
    qed
  qed
qed

lemma world_ok_step: "world_ok w \<Longrightarrow> world_ok (step x w)"
proof (cases w)
  case (Pair cs st)
  assume ok: "world_ok w"
  then have okp: "world_ok (cs, st)"
    unfolding Pair .
  then have wf: "well_formed st"
    by (simp add: world_ok_def)
  have inst: "ctx_in_store st (cs ! i)" if "i < length cs" for i
    using okp that by (simp add: world_ok_def ctx_ok_in_store)
  show ?thesis
  proof (cases x)
    case (NewValue i k v)
    show ?thesis
    proof (cases "i < length cs")
      case True
      then show ?thesis
        using okp world_ok_value [OF okp True] by (simp add: Pair NewValue split: sum.split)
    next
      case False
      with okp show ?thesis
        by (simp add: Pair NewValue)
    qed
  next
    case (NewCancel i)
    show ?thesis
    proof (cases "i < length cs")
      case True
      with world_ok_node [OF okp True, of CancelNode] show ?thesis
        by (simp add: Pair NewCancel split_beta)
    next
      case False
      with okp show ?thesis
        by (simp add: Pair NewCancel)
    qed
  next
    case (NewTimeout i ms)
    show ?thesis
    proof (cases "i < length cs")
      case True
      with world_ok_node [OF okp True, of "TimeoutNode ms"] show ?thesis
        by (simp add: Pair NewTimeout split_beta)
    next
      case False
      with okp show ?thesis
        by (simp add: Pair NewTimeout)
    qed
  next
    case (CallCancel i)
    have "world_ok (cs, ctx_cancel (cs ! i) st)"
      using okp by (rule world_ok_store) (simp_all add: wf well_formed_ctx_cancel node_ok_ctx_cancel linked_ctx_cancel)
    with okp show ?thesis
      by (simp add: Pair CallCancel)
  next
    case (Wait ms)
    have "world_ok (cs, delay ms st)"
      using okp by (rule world_ok_store) (simp_all add: wf well_formed_delay node_ok_delay linked_delay)
    then show ?thesis
      by (simp add: Pair Wait)
  next
    case (NewPromise i ex)
    show ?thesis
    proof (cases "i < length cs")
      case True
      have "world_ok (cs, snd (ContextPromise_new (cs ! i) ex st))"
        using okp
        by (rule world_ok_store)
          (simp_all add: wf inst [OF True] well_formed_ContextPromise_new node_ok_ContextPromise_new
            linked_ContextPromise_new)
      with True show ?thesis
        by (simp add: Pair NewPromise)
    next
      case False
      with okp show ?thesis
        by (simp add: Pair NewPromise)
    qed
  next
    case (CallResolve p v)
    have "world_ok (cs, promise_resolve p v st)"
      using okp by (rule world_ok_store) (simp_all add: wf well_formed_promise_resolve node_ok_promise_resolve
          linked_promise_resolve)
    then show ?thesis
      by (simp add: Pair CallResolve)
  next
    case (CallReject p r)
    have "world_ok (cs, promise_reject p (ValueArg r) st)"
      using okp by (rule world_ok_store) (simp_all add: wf well_formed_promise_reject node_ok_promise_reject
          linked_promise_reject)
    then show ?thesis
      by (simp add: Pair CallReject)
  qed
qed

lemma world_ok_fold: "world_ok w \<Longrightarrow> world_ok (fold step ops w)"
  by (induction ops arbitrary: w) (simp_all add: world_ok_step)

lemma world_ok_exec: "world_ok (exec ops)"
  unfolding exec_def by (rule world_ok_fold) (simp add: world_ok_def well_formed_init ctx_in_store_def)

lemma exec_world:
  assumes "exec ops = (cs, st)"
  shows "well_formed st"
    and "\<And>i. i < length cs \<Longrightarrow> ctx_ok st (cs ! i)"
    and "\<And>i j. i < length cs \<Longrightarrow> j < length cs \<Longrightarrow> own_signal (cs ! i) \<noteq> None
          \<Longrightarrow> own_signal (cs ! i) = own_signal (cs ! j) \<Longrightarrow> i = j"
    and "\<And>c. c \<in> set cs \<Longrightarrow> ctx_ok st c"
proof -
  have ok: "world_ok (cs, st)"
    using world_ok_exec [of ops] by (simp add: assms)
  show "ctx_ok st c" if "c \<in> set cs" for c
    using ok that by (simp add: world_ok_def)
  from ok show "well_formed st"
    by (simp add: world_ok_def)
  show "ctx_ok st (cs ! i)" if "i < length cs" for i
    using ok that by (simp add: world_ok_def)
  show "i = j" if "i < length cs" "j < length cs" "own_signal (cs ! i) \<noteq> None"
    "own_signal (cs ! i) = own_signal (cs ! j)" for i j
    using ok that unfolding world_ok_def fst_conv snd_conv by blast
qed

lemma world_tidy_step: "world_tidy w \<Longrightarrow> world_tidy (step x w)"
proof (cases w)
  case (Pair cs st)
  assume "world_tidy w"
  then have c: "cleared st" and p: "parents_made cs"
    by (simp_all add: Pair world_tidy_def)
  show ?thesis
  proof (cases x)
    case (NewValue i k v)
    show ?thesis
    proof (cases "i < length cs")
      case True
      have "parents_made (cs @ [WithValue (cs ! i) k v])"
        using p by (rule parents_made_snoc) (use True in \<open>auto intro: nth_mem\<close>)
      with c p True show ?thesis
        by (auto simp: Pair NewValue world_tidy_def split: sum.split dest: WithValue_new_Inr)
    next
      case False
      with c p show ?thesis
        by (simp add: Pair NewValue world_tidy_def)
    qed
  next
    case (NewCancel i)
    show ?thesis
    proof (cases "i < length cs")
      case True
      have "ctx_parent (fst (derive CancelNode (cs ! i) st)) = Some (cs ! i)"
        using derive_shape [of CancelNode "cs ! i" st] by auto
      with p have "parents_made (cs @ [fst (derive CancelNode (cs ! i) st)])"
        by (rule parents_made_snoc) (use True in \<open>auto intro: nth_mem\<close>)
      with c True cleared_derive [OF c, of CancelNode "cs ! i"] show ?thesis
        by (simp add: Pair NewCancel world_tidy_def split_beta)
    next
      case False
      with c p show ?thesis
        by (simp add: Pair NewCancel world_tidy_def)
    qed
  next
    case (NewTimeout i ms)
    show ?thesis
    proof (cases "i < length cs")
      case True
      have "ctx_parent (fst (derive (TimeoutNode ms) (cs ! i) st)) = Some (cs ! i)"
        using derive_shape [of "TimeoutNode ms" "cs ! i" st] by auto
      with p have "parents_made (cs @ [fst (derive (TimeoutNode ms) (cs ! i) st)])"
        by (rule parents_made_snoc) (use True in \<open>auto intro: nth_mem\<close>)
      with c True cleared_derive [OF c, of "TimeoutNode ms" "cs ! i"] show ?thesis
        by (simp add: Pair NewTimeout world_tidy_def split_beta)
    next
      case False
      with c p show ?thesis
        by (simp add: Pair NewTimeout world_tidy_def)
    qed
  next
    case (CallCancel i)
    with c p show ?thesis
      by (simp add: Pair world_tidy_def cleared_ctx_cancel)
  next
    case (Wait ms)
    with c p show ?thesis
      by (simp add: Pair world_tidy_def cleared_delay)
  next
    case (NewPromise i ex)
    with c p show ?thesis
      by (simp add: Pair world_tidy_def cleared_ContextPromise_new)
  next
    case (CallResolve q v)
    with c p show ?thesis
      by (simp add: Pair world_tidy_def cleared_promise_resolve)
  next
    case (CallReject q r)
    with c p show ?thesis
      by (simp add: Pair world_tidy_def cleared_promise_reject)
  qed
qed

lemma world_tidy_exec: "world_tidy (exec ops)"
proof -
  have "world_tidy (fold step xs w)" if "world_tidy w" for xs w
    using that by (induction xs arbitrary: w) (simp_all add: world_tidy_step)
  moreover have "world_tidy ([Background], init)"
    by (simp add: world_tidy_def cleared_init parents_made_def)
  ultimately show ?thesis
    unfolding exec_def by blast
qed

lemma exec_snoc: "exec (ops @ [x]) = step x (exec ops)"
  by (simp add: exec_def)


lemma exec_tidy:
  assumes "exec ops = (cs, st)"
  shows "cleared st" and "parents_made cs"
  using world_tidy_exec [of ops] by (simp_all add: assms world_tidy_def)

lemma own_signal_inj:
  assumes "exec ops = (cs, st)" and "c \<in> set cs" and "y \<in> set cs"
    and "own_signal c = Some s" and "own_signal y = Some s"
  shows "c = y"
proof -
  from assms(2,3) obtain i j where "i < length cs" "cs ! i = c" "j < length cs" "cs ! j = y"
    by (auto simp: in_set_conv_nth)
  with exec_world(3) [OF assms(1), of i j] assms(4,5) show ?thesis
    by auto
qed

lemma own_signalE:
  assumes "own_signal y = Some s"
  obtains p where "y = WithCancel p s \<or> y = WithTimeout p s"
  using assms by (cases y) auto

lemma reach_below:
  assumes "exec ops = (cs, st)" and "c \<in> set cs" and "own_signal c = Some sc"
    and "x \<in> reach st sc" and "y \<in> set cs" and "own_signal y = Some x"
  shows "below c y"
  using assms(4-6)
proof (induction arbitrary: y rule: reach.induct)
  case self
  from assms(1,2) self(1) assms(3) self(2) have "c = y"
    by (rule own_signal_inj)
  then show ?case
    by simp
next
  case (step a cb b)
  from step.prems(2) obtain p where y: "y = WithCancel p b \<or> y = WithTimeout p b"
    by (rule own_signalE)
  then have par: "ctx_parent y = Some p"
    by auto
  from exec_world(4) [OF assms(1) step.prems(1)] y have "node_ok st p b"
    by auto
  with step.hyps(2,3) have d: "ctx_done p = Some a"
    by (simp add: node_ok_iff)
  note made = exec_tidy(2) [OF assms(1)]
  from made step.prems(1) par have "p \<in> set cs"
    by (rule parents_madeD)
  with made obtain z where z: "z \<in> set cs" "own_signal z = Some a" "below z p"
    using d by (blast dest: done_owner)
  from z(1,2) have "below c z"
    by (rule step.IH)
  then have "below c p"
    using z(3) by (rule below_trans)
  with par show ?case
    by (simp add: below_parent)
qed

lemma cancel_not_below:
  assumes "exec ops = (cs, st)" and "c \<in> set cs" and "own_signal c = Some sc"
    and "y \<in> set cs" and "\<not> below c y"
  shows "ctx_error (ctx_cancel c st) y = ctx_error st y \<and> fired (ctx_cancel c st) y = fired st y"
proof (cases "ctx_done y")
  case None
  then show ?thesis
    by (simp add: ctx_error_no_signal fired_def)
next
  case (Some a)
  from exec_tidy(2) [OF assms(1)] assms(4) Some
  obtain z where z: "z \<in> set cs" "own_signal z = Some a" "below z y"
    by (blast dest: done_owner)
  have "a \<notin> reach st sc"
  proof
    assume "a \<in> reach st sc"
    with assms(1-3) have "below c z"
      using z(1,2) by (rule reach_below)
    then have "below c y"
      using z(3) by (rule below_trans)
    with assms(5) show False ..
  qed
  then have "error_of (CancelSignal_cancel sc e st) a = error_of st a"
    and "aborted (CancelSignal_cancel sc e st) a = aborted st a" for e
    by (rule cancel_frame)+
  moreover have "ctx_cancel c st = CancelSignal_cancel sc (Some Canceled) st"
    using assms(3) by (cases c) simp_all
  ultimately show ?thesis
    using Some by (simp add: ctx_error_done fired_def)
qed

section \<open>Cancellation after any program\<close>

lemma node_parentE:
  assumes "node_parent c = Some p"
  obtains s where "c = WithCancel p s \<or> c = WithTimeout p s"
  using assms by (cases c) auto

lemma is_chain_hd: "is_chain parent chain \<Longrightarrow> chain \<noteq> [] \<Longrightarrow> node_parent (hd chain) = Some parent"
  by (cases chain) simp_all

lemma is_chain_nth:
  "is_chain parent chain \<Longrightarrow> Suc j < length chain \<Longrightarrow> node_parent (chain ! Suc j) = Some (chain ! j)"
proof (induction chain arbitrary: parent j)
  case Nil
  then show ?case by simp
next
  case (Cons c cs)
  show ?case
  proof (cases j)
    case 0
    with Cons.prems show ?thesis
      by (cases cs) simp_all
  next
    case (Suc k)
    with Cons.prems Cons.IH [of c k] show ?thesis
      by simp
  qed
qed

lemma chain_need:
  assumes "well_formed st" and "\<And>c. c \<in> set chain \<Longrightarrow> ctx_ok st c"
    and "is_chain parent chain" and "\<And>c. c \<in> set chain \<Longrightarrow> \<not> fired st c"
    and "own_signal (hd chain) = Some s0" and "j < length chain"
  shows "\<exists>s. own_signal (chain ! j) = Some s \<and> ctx_done (chain ! j) = Some s \<and> s \<in> need [Cancel s0 e] st"
  using assms(6)
proof (induction j)
  case 0
  then have "chain ! 0 = hd chain"
    by (cases chain) simp_all
  moreover have "ctx_done (hd chain) = Some s0"
    using assms(5) by (cases "hd chain") simp_all
  moreover have "s0 \<in> need [Cancel s0 e] st"
    by (rule need.root [of "Cancel s0 e"]) simp_all
  ultimately show ?case
    using assms(5) by simp
next
  case (Suc j)
  then obtain sj where sj: "ctx_done (chain ! j) = Some sj" "sj \<in> need [Cancel s0 e] st"
    by auto
  from Suc.prems have mem: "chain ! j \<in> set chain" "chain ! Suc j \<in> set chain"
    by simp_all
  have "node_parent (chain ! Suc j) = Some (chain ! j)"
    using assms(3) Suc.prems by (rule is_chain_nth)
  then obtain s where c: "chain ! Suc j = WithCancel (chain ! j) s \<or> chain ! Suc j = WithTimeout (chain ! j) s"
    by (rule node_parentE)
  with assms(2) [OF mem(2)] have "linked st (chain ! j) s"
    by auto
  moreover have "\<not> aborted st s"
    using assms(4) [OF mem(2)] c by (auto simp: fired_def)
  ultimately have reg: "OnCanceled sj (Handler s sj) \<in> set (listeners st sj)"
    using sj(1) by (simp add: linked_def)
  have "\<not> aborted st sj"
    using assms(4) [OF mem(1)] sj(1) by (simp add: fired_def)
  with sj(2) have "s \<in> need [Cancel s0 e] st"
    using reg by (rule need.link) simp
  with c show ?case
    by auto
qed

lemma unfired_chain:
  assumes "exec ops = (made, st)" and "set chain \<subseteq> set made" and "is_chain parent chain"
    and "\<forall>c \<in> set chain. \<not> fired st c" and "i < length chain"
  shows "ctx_error (ctx_cancel (hd chain) st) (chain ! i) = Some Canceled
    \<and> fired (ctx_cancel (hd chain) st) (chain ! i)
    \<and> (Suc i < length chain \<longrightarrow>
          ctx_error (ctx_cancel (hd chain) st) (chain ! Suc i) = ctx_error (ctx_cancel (hd chain) st) (chain ! i))"
proof -
  let ?e = "Some Canceled"
  note world = exec_world(1,4) [OF assms(1)]
  have ok: "ctx_ok st c" if "c \<in> set chain" for c
    using that assms(2) by (intro world(2)) blast
  have unfired: "\<not> fired st c" if "c \<in> set chain" for c
    using that assms(4) by blast
  from assms(5) have ne: "chain \<noteq> []"
    by auto
  with assms(3) have "node_parent (hd chain) = Some parent"
    by (rule is_chain_hd)
  then obtain s0 where hd: "hd chain = WithCancel parent s0 \<or> hd chain = WithTimeout parent s0"
    by (rule node_parentE)
  then have own: "own_signal (hd chain) = Some s0"
    and cancel: "ctx_cancel (hd chain) st = run [Cancel s0 ?e] st"
    by (auto simp: CancelSignal_cancel_def)
  have "ctx_ok st (hd chain)"
    using ne by (intro ok) simp
  with hd have "s0 < length (signals st)"
    by (auto simp: node_ok_iff)
  with world(1) have conf: "conf_ok ?e [Cancel s0 ?e] st"
    by (simp add: conf_ok_def)
  have at: "ctx_error (ctx_cancel (hd chain) st) (chain ! j) = ?e \<and> fired (ctx_cancel (hd chain) st) (chain ! j)"
    if "j < length chain" for j
  proof -
    from chain_need [OF world(1) ok assms(3) unfired own that, of ?e]
    obtain s where s: "own_signal (chain ! j) = Some s" "ctx_done (chain ! j) = Some s"
      "s \<in> need [Cancel s0 ?e] st"
      by blast
    from conf s(3) have "fired_with ?e (run [Cancel s0 ?e] st) s"
      by (rule need_run)
    moreover have "ctx_error st' (chain ! j) = error_of st' s" for st'
      using s(1) by (cases "chain ! j") simp_all
    ultimately show ?thesis
      using s(2) by (simp add: cancel fired_with_def fired_def del: run.simps)
  qed
  from at [OF assms(5)] at [of "Suc i"] show ?thesis
    by simp
qed

lemma aborted_cancel: "s < length (signals st) \<Longrightarrow> aborted (CancelSignal_cancel s e st) s"
  by (cases "aborted st s") (simp_all add: CancelSignal_cancel_def aborted_run)

lemma is_chain_take: "is_chain parent chain \<Longrightarrow> is_chain parent (take n chain)"
proof (induction chain arbitrary: parent n)
  case Nil
  then show ?case by simp
next
  case (Cons c cs)
  then show ?case by (cases n) simp_all
qed

lemma chain_fired:
  assumes "exec ops = (made, st)" and "set chain \<subseteq> set made" and "is_chain parent chain"
    and "j < length chain"
  shows "fired (ctx_cancel (hd chain) st) (chain ! j)"
proof -
  let ?st = "ctx_cancel (hd chain) st"
  from assms(4) have ne: "chain \<noteq> []"
    by auto
  then have "hd chain \<in> set made"
    using assms(2) by auto
  then obtain idx where idx: "idx < length made" "made ! idx = hd chain"
    by (auto simp: in_set_conv_nth)
  then have after: "exec (ops @ [CallCancel idx]) = (made, ?st)"
    by (simp add: exec_snoc assms(1))
  note ok = exec_world(4) [OF after] and clear = exec_tidy(1) [OF after]
  from assms(3) ne have "node_parent (hd chain) = Some parent"
    by (rule is_chain_hd)
  then obtain s0 where hd: "hd chain = WithCancel parent s0 \<or> hd chain = WithTimeout parent s0"
    by (rule node_parentE)
  have "ctx_ok st (hd chain)"
    using exec_world(4) [OF assms(1)] \<open>hd chain \<in> set made\<close> by blast
  with hd have "s0 < length (signals st)"
    by (auto simp: node_ok_iff)
  then have "aborted (CancelSignal_cancel s0 (Some Canceled) st) s0"
    by (rule aborted_cancel)
  with hd have first: "fired ?st (hd chain)"
    by (auto simp: fired_def)
  from assms(4) show ?thesis
  proof (induction j)
    case 0
    with first ne show ?case
      by (simp add: hd_conv_nth)
  next
    case (Suc j)
    then have prev: "fired ?st (chain ! j)"
      by simp
    have "node_parent (chain ! Suc j) = Some (chain ! j)"
      using assms(3) Suc.prems by (rule is_chain_nth)
    then obtain s where c: "chain ! Suc j = WithCancel (chain ! j) s \<or> chain ! Suc j = WithTimeout (chain ! j) s"
      by (rule node_parentE)
    from Suc.prems assms(2) have "chain ! Suc j \<in> set made"
      by (meson nth_mem subsetD)
    then have "ctx_ok ?st (chain ! Suc j)"
      by (rule ok)
    with c have link: "linked ?st (chain ! j) s"
      by auto
    from prev obtain sj where sj: "ctx_done (chain ! j) = Some sj" "aborted ?st sj"
      by (auto simp: fired_def split: option.splits)
    from clear link sj have "aborted ?st s"
      by (rule fired_parent_fired_child)
    with c show ?case
      by (auto simp: fired_def)
  qed
qed

text \<open>
  C1, as stated, at a chain whose first node has fired: a \<open>WithTimeout\<close> node below
  \<open>Background\<close> with a \<open>WithCancel\<close> child, after the deadline. Both have the cause
  \<open>DeadlineExceeded\<close>; \<open>cancel()\<close> on the first node makes its cause \<open>Canceled\<close> and
  leaves the child at \<open>DeadlineExceeded\<close>.
\<close>

theorem C1_fired_head_keeps_deadline:
  "fst (exec late) = [Background, WithTimeout Background 0, WithCancel (WithTimeout Background 0) 1]
   \<and> is_chain Background [WithTimeout Background 0, WithCancel (WithTimeout Background 0) 1]
   \<and> ctx_error (snd (exec late)) (WithTimeout Background 0) = Some DeadlineExceeded
   \<and> ctx_error (snd (exec late)) (WithCancel (WithTimeout Background 0) 1) = Some DeadlineExceeded
   \<and> ctx_error (ctx_cancel (WithTimeout Background 0) (snd (exec late))) (WithTimeout Background 0)
        = Some Canceled
   \<and> ctx_error (ctx_cancel (WithTimeout Background 0) (snd (exec late)))
        (WithCancel (WithTimeout Background 0) 1) = Some DeadlineExceeded
   \<and> ctx_error (ctx_cancel (WithTimeout Background 0) (snd (exec late)))
        (WithCancel (WithTimeout Background 0) 1) \<noteq> Some Canceled"
  by code_simp

text \<open>
  C1, amended: after any program, let \<open>A1, ..., An\<close> be a chain of \<open>WithCancel\<close> and
  \<open>WithTimeout\<close> nodes the program made, each the parent of the next, below
  \<open>Background\<close> or any other context. After \<open>cancel()\<close> on \<open>A1\<close> the signal of every
  \<open>Ai\<close> is aborted; and if none of \<open>A1, ..., Ai\<close> had fired before the call,
  \<open>error()\<close> of \<open>Ai\<close> is \<open>Canceled\<close>, the cause its parent recorded.
\<close>

theorem C1_cancel_reaches_chain:
  assumes "exec ops = (made, st)" and "set chain \<subseteq> set made" and "is_chain parent chain"
    and "i < length chain"
  shows "fired (ctx_cancel (hd chain) st) (chain ! i)
    \<and> ((\<forall>k \<le> i. \<not> fired st (chain ! k)) \<longrightarrow>
          ctx_error (ctx_cancel (hd chain) st) (chain ! i) = Some Canceled
          \<and> (0 < i \<longrightarrow> ctx_error (ctx_cancel (hd chain) st) (chain ! i)
                = ctx_error (ctx_cancel (hd chain) st) (chain ! (i - 1))))"
proof (intro conjI impI)
  show "fired (ctx_cancel (hd chain) st) (chain ! i)"
    using assms by (rule chain_fired)
next
  let ?pre = "take (Suc i) chain"
  assume unfired: "\<forall>k \<le> i. \<not> fired st (chain ! k)"
  from assms(4) have ne: "chain \<noteq> []"
    by auto
  have sub: "set ?pre \<subseteq> set made"
    using assms(2) by (meson set_take_subset subset_trans)
  have chain: "is_chain parent ?pre"
    using assms(3) by (rule is_chain_take)
  have all: "\<forall>c \<in> set ?pre. \<not> fired st c"
  proof
    fix c
    assume "c \<in> set ?pre"
    then obtain k where "k < length ?pre" "?pre ! k = c"
      by (auto simp: in_set_conv_nth)
    with unfired show "\<not> fired st c"
      by auto
  qed
  have hd: "hd ?pre = hd chain"
    using ne by (cases chain) simp_all
  have at: "ctx_error (ctx_cancel (hd chain) st) (chain ! j) = Some Canceled" if "j \<le> i" for j
  proof -
    from that assms(4) have "j < length ?pre"
      by simp
    from unfired_chain [OF assms(1) sub chain all this] that show ?thesis
      by (simp add: hd)
  qed
  from at [of i] show "ctx_error (ctx_cancel (hd chain) st) (chain ! i) = Some Canceled"
    by simp
  from at [of i] at [of "i - 1"]
  show "ctx_error (ctx_cancel (hd chain) st) (chain ! i) = ctx_error (ctx_cancel (hd chain) st) (chain ! (i - 1))"
    by simp
qed

theorem C1_cancel_reaches_chain_witness:
  "fst (exec tree) =
     [Background, WithCancel Background 0, WithTimeout (WithCancel Background 0) 1,
      WithCancel (WithTimeout (WithCancel Background 0) 1) 2, WithCancel (WithCancel Background 0) 3]
   \<and> \<not> fired (snd (exec tree)) (WithCancel Background 0)
   \<and> \<not> fired (snd (exec tree)) (WithTimeout (WithCancel Background 0) 1)
   \<and> \<not> fired (snd (exec tree)) (WithCancel (WithTimeout (WithCancel Background 0) 1) 2)
   \<and> fired (snd (exec tree)) (WithCancel (WithCancel Background 0) 3)
   \<and> ctx_error (snd (exec tree)) (WithCancel (WithTimeout (WithCancel Background 0) 1) 2) = None
   \<and> ctx_error (ctx_cancel (WithCancel Background 0) (snd (exec tree)))
        (WithCancel (WithTimeout (WithCancel Background 0) 1) 2) = Some Canceled
   \<and> fired (ctx_cancel (WithCancel Background 0) (snd (exec tree)))
        (WithCancel (WithTimeout (WithCancel Background 0) 1) 2)
   \<and> ctx_error (ctx_cancel (WithCancel Background 0) (snd (exec tree)))
        (WithTimeout (WithCancel Background 0) 1) = Some Canceled"
proof -
  let ?a1 = "WithCancel Background 0"
  let ?a2 = "WithTimeout ?a1 1"
  let ?a3 = "WithCancel ?a2 2"
  have run: "exec tree = (fst (exec tree), snd (exec tree))"
    by simp
  have made: "fst (exec tree) = [Background, ?a1, ?a2, ?a3, WithCancel ?a1 3]"
    by code_simp
  have unfired: "\<not> fired (snd (exec tree)) ?a1" "\<not> fired (snd (exec tree)) ?a2"
    "\<not> fired (snd (exec tree)) ?a3"
    and sibling: "fired (snd (exec tree)) (WithCancel ?a1 3)"
    and before: "ctx_error (snd (exec tree)) ?a3 = None"
    by code_simp+
  have sub: "set [?a1, ?a2, ?a3] \<subseteq> set (fst (exec tree))"
    by (simp add: made)
  have chain: "is_chain Background [?a1, ?a2, ?a3]"
    by simp
  have all: "\<forall>k \<le> 2. \<not> fired (snd (exec tree)) ([?a1, ?a2, ?a3] ! k)"
    using unfired by (simp add: nth_Cons split: nat.split)
  have i: "(2::nat) < length [?a1, ?a2, ?a3]"
    by simp
  note at = C1_cancel_reaches_chain [OF run sub chain i]
  from at have "fired (ctx_cancel (hd [?a1, ?a2, ?a3]) (snd (exec tree))) ([?a1, ?a2, ?a3] ! 2)"
    by (rule conjunct1)
  moreover from at all
  have "ctx_error (ctx_cancel (hd [?a1, ?a2, ?a3]) (snd (exec tree))) ([?a1, ?a2, ?a3] ! 2) = Some Canceled
    \<and> ((0::nat) < 2 \<longrightarrow> ctx_error (ctx_cancel (hd [?a1, ?a2, ?a3]) (snd (exec tree))) ([?a1, ?a2, ?a3] ! 2)
          = ctx_error (ctx_cancel (hd [?a1, ?a2, ?a3]) (snd (exec tree))) ([?a1, ?a2, ?a3] ! (2 - 1)))"
    by blast
  ultimately show ?thesis
    using made unfired sibling before by auto
qed

section \<open>A promise and the signal it is bound to\<close>

lemma sole_iff:
  "sole st s p =
     (p < length (promises st) \<and> s < length (signals st)
      \<and> (\<forall>q cb. cb \<in> set (listeners st q) \<longrightarrow> rejects p cb \<longrightarrow> q = s))"
proof -
  have out: "listeners st q = []" if "\<not> q < length (signals st)" for q
    using that by (simp add: listeners_def)
  have "list_all (\<lambda>q. list_all (\<lambda>cb. rejects p cb \<longrightarrow> q = s) (listeners st q)) [0..<length (signals st)]
      = (\<forall>q cb. cb \<in> set (listeners st q) \<longrightarrow> rejects p cb \<longrightarrow> q = s)"
    (is "?l = ?r")
  proof
    assume ?l
    show ?r
    proof (intro allI impI)
      fix q cb
      assume cb: "cb \<in> set (listeners st q)" and r: "rejects p cb"
      with out [of q] have "q < length (signals st)"
        by (cases "q < length (signals st)") auto
      with \<open>?l\<close> cb r show "q = s"
        by (auto simp: list_all_iff)
    qed
  next
    assume ?r
    then show ?l
      by (simp add: list_all_iff)
  qed
  then show ?thesis
    by (simp add: sole_def)
qed

lemma sole_step:
  assumes "sole st s p"
    and "length (promises st) \<le> length (promises st')"
    and "length (signals st) \<le> length (signals st')"
    and "\<And>q cb. cb \<in> set (listeners st' q) \<Longrightarrow> rejects p cb \<Longrightarrow> cb \<in> set (listeners st q)"
  shows "sole st' s p"
  using assms unfolding sole_iff by (meson order_less_le_trans)

lemma sole_run: "sole st s p \<Longrightarrow> sole (run w st) s p"
  by (rule sole_step [where st = st]) (use listeners_run [of w st] in auto)

lemma bound_step:
  assumes "bound st s p" and "sole st' s p"
    and "promises st' ! p = Pending \<Longrightarrow> promises st ! p = Pending"
    and "aborted st' s \<Longrightarrow> aborted st s"
    and "OnCanceled s (Reject p) \<in> set (listeners st s)
          \<Longrightarrow> OnCanceled s (Reject p) \<in> set (listeners st' s)"
  shows "bound st' s p"
  using assms unfolding bound_def by blast

lemma bound_shrink:
  assumes "bound st s p"
    and "length (promises st') = length (promises st)"
    and "length (signals st') = length (signals st)"
    and "promises st' ! p = promises st ! p"
    and "aborted st' s = aborted st s"
    and "listeners st' s = listeners st s"
    and "\<And>q. set (listeners st' q) \<subseteq> set (listeners st q)"
  shows "bound st' s p"
proof -
  from assms(1) have "sole st s p"
    by (simp add: bound_def)
  then have "sole st' s p"
    by (rule sole_step) (use assms(2,3,7) in auto)
  with assms(1,4,5,6) show ?thesis
    by (simp add: bound_def)
qed

lemma pending_run:
  "conf_ok e w st \<Longrightarrow> bound st s p \<Longrightarrow> promises st ! p = Pending
    \<Longrightarrow> \<forall>call \<in> set w. call_quiet s p call
    \<Longrightarrow> (\<not> aborted (run w st) s \<and> promises (run w st) ! p = Pending
          \<and> OnCanceled s (Reject p) \<in> set (listeners (run w st) s))
        \<or> (aborted (run w st) s \<and> error_of (run w st) s = e
          \<and> promises (run w st) ! p = Rejected (ErrorArg e))"
proof (induction w st rule: cascade_induct)
  case (Nil st)
  then show ?case
    by (simp add: bound_def)
next
  case (Fire c rest st)
  let ?w = "map (Dispatch c) (listeners st c) @ rest"
  let ?st = "set_aborted c (set_error c e st)"
  have ok: "conf_ok e ?w ?st"
    using Fire.hyps(1) by (rule conf_ok_Cancel_fired)
  have eq: "run (Cancel c e # rest) st = run ?w ?st"
    using Fire.hyps(2,3) by simp
  from Fire.prems(1,2) have reg: "OnCanceled s (Reject p) \<in> set (listeners st s)"
    and p: "p < length (promises st)" and unf: "\<not> aborted st s"
    by (simp_all add: bound_def sole_def)
  show ?case
  proof (cases "c = s")
    case True
    have "stage_call s p e ?st (Dispatch s (OnCanceled s (Reject p)))"
      using reg by (simp add: stage_call_def)
    moreover have "Dispatch s (OnCanceled s (Reject p)) \<in> set ?w"
      using reg True by simp
    ultimately have "settles s p e ?w ?st"
      using p Fire.prems(2) unfolding settles_def by auto
    with ok have "promises (run ?w ?st) ! p = Rejected (ErrorArg e)"
      by (rule settles_run)
    moreover have "error_of (run ?w ?st) s = e"
      using ok by (rule error_stays) (use True Fire.hyps(2) in simp)
    moreover have "aborted (run ?w ?st) s"
      by (rule aborted_run) (use True Fire.hyps(2) in simp)
    ultimately show ?thesis
      unfolding eq by blast
  next
    case False
    have "bound ?st s p"
      using Fire.prems(1) by (rule bound_shrink) (use False in simp_all)
    moreover have "promises ?st ! p = Pending"
      using Fire.prems(2) by simp
    moreover have "\<forall>call \<in> set ?w. call_quiet s p call"
    proof
      fix call
      assume "call \<in> set ?w"
      then consider cb where "call = Dispatch c cb" "cb \<in> set (listeners st c)" | "call \<in> set rest"
        by auto
      then show "call_quiet s p call"
      proof cases
        case 1
        from Fire.prems(1) 1(2) have "rejects p cb \<Longrightarrow> c = s"
          by (auto simp: bound_def sole_iff)
        with False 1(1) show ?thesis
          by auto
      next
        case 2
        with Fire.prems(3) show ?thesis
          by simp
      qed
    qed
    ultimately show ?thesis
      unfolding eq by (rule Fire.IH)
  qed
next
  case (Skip c rest st)
  let ?st = "set_error c e st"
  have eq: "run (Cancel c e # rest) st = run rest ?st"
    using Skip.hyps(2) by simp
  have "bound ?st s p"
    using Skip.prems(1) by (rule bound_shrink) simp_all
  moreover have "promises ?st ! p = Pending"
    using Skip.prems(2) by simp
  moreover have "\<forall>call \<in> set rest. call_quiet s p call"
    using Skip.prems(3) by simp
  ultimately show ?case
    unfolding eq by (rule Skip.IH)
next
  case (Dispatch c fn rest st)
  let ?cb = "OnCanceled c fn"
  let ?st = "removeEventListener c ?cb st"
  have eq: "run (Dispatch c ?cb # rest) st = run (Invoke ?cb EventArg # rest) ?st"
    using Dispatch.hyps(2) by simp
  from Dispatch.prems(3) have ne: "c \<noteq> s" and quiet: "\<not> rejects p ?cb"
    by simp_all
  have "bound ?st s p"
    using Dispatch.prems(1) by (rule bound_shrink) (use ne in \<open>auto dest: in_set_remove1D\<close>)
  moreover have "promises ?st ! p = Pending"
    using Dispatch.prems(2) by simp
  moreover have "\<forall>call \<in> set (Invoke ?cb EventArg # rest). call_quiet s p call"
    using Dispatch.prems(3) by simp
  ultimately show ?case
    unfolding eq by (rule Dispatch.IH)
next
  case (Gone c cb rest st)
  have eq: "run (Dispatch c cb # rest) st = run rest st"
    using Gone.hyps(2) by simp
  from Gone.prems show ?case
    unfolding eq by (intro Gone.IH) simp_all
next
  case (Wrapper c fn a rest st)
  have eq: "run (Invoke (OnCanceled c fn) a # rest) st = run (Invoke fn (ErrorArg e) # rest) st"
    using Wrapper.hyps(2) by simp
  from Wrapper.prems show ?case
    unfolding eq by (intro Wrapper.IH) simp_all
next
  case (Handler c q a rest st)
  have eq: "run (Invoke (Handler c q) a # rest) st = run (Cancel c e # rest) st"
    using Handler.hyps(2) by simp
  from Handler.prems show ?case
    unfolding eq by (intro Handler.IH) simp_all
next
  case (Remove q c q' a rest st)
  let ?st = "removeEventListener q (Handler c q') st"
  from Remove.hyps have "well_formed st"
    by (simp add: conf_ok_def)
  then have same: "listeners ?st x = listeners st x" for x
    by (rule remove_bare_handler)
  have "bound ?st s p"
    using Remove.prems(1) by (rule bound_shrink) (simp_all add: same del: listeners_upd)
  moreover have "promises ?st ! p = Pending"
    using Remove.prems(2) by simp
  moreover have "\<forall>call \<in> set rest. call_quiet s p call"
    using Remove.prems(3) by simp
  ultimately have "(\<not> aborted (run rest ?st) s \<and> promises (run rest ?st) ! p = Pending
          \<and> OnCanceled s (Reject p) \<in> set (listeners (run rest ?st) s))
        \<or> (aborted (run rest ?st) s \<and> error_of (run rest ?st) s = e
          \<and> promises (run rest ?st) ! p = Rejected (ErrorArg e))"
    by (rule Remove.IH)
  then show ?case
    by simp
next
  case (Clear t a rest st)
  let ?st = "clearTimeout t st"
  have "bound ?st s p"
    using Clear.prems(1) by (rule bound_shrink) simp_all
  moreover have "promises ?st ! p = Pending"
    using Clear.prems(2) by simp
  moreover have "\<forall>call \<in> set rest. call_quiet s p call"
    using Clear.prems(3) by simp
  ultimately have "(\<not> aborted (run rest ?st) s \<and> promises (run rest ?st) ! p = Pending
          \<and> OnCanceled s (Reject p) \<in> set (listeners (run rest ?st) s))
        \<or> (aborted (run rest ?st) s \<and> error_of (run rest ?st) s = e
          \<and> promises (run rest ?st) ! p = Rejected (ErrorArg e))"
    by (rule Clear.IH)
  then show ?case
    by simp
next
  case (Reject p' rest st)
  let ?st = "promise_reject p' (ErrorArg e) st"
  from Reject.prems(3) have ne: "p' \<noteq> p"
    by simp
  then have same: "promises ?st ! p = promises st ! p"
    by (simp add: promises_promise_reject)
  have "bound ?st s p"
    using Reject.prems(1) by (rule bound_shrink) (simp_all add: same)
  moreover have "promises ?st ! p = Pending"
    using Reject.prems(2) by (simp add: same)
  moreover have "\<forall>call \<in> set rest. call_quiet s p call"
    using Reject.prems(3) by simp
  ultimately have "(\<not> aborted (run rest ?st) s \<and> promises (run rest ?st) ! p = Pending
          \<and> OnCanceled s (Reject p) \<in> set (listeners (run rest ?st) s))
        \<or> (aborted (run rest ?st) s \<and> error_of (run rest ?st) s = e
          \<and> promises (run rest ?st) ! p = Rejected (ErrorArg e))"
    by (rule Reject.IH)
  then show ?case
    by simp
qed

lemma waits_grow:
  assumes "waits st s p"
    and "length (promises st) \<le> length (promises st')"
    and "length (signals st) \<le> length (signals st')"
    and "promises st' ! p = promises st ! p"
    and "aborted st' s = aborted st s"
    and "set (listeners st s) \<subseteq> set (listeners st' s)"
    and "\<And>q cb. cb \<in> set (listeners st' q) \<Longrightarrow> rejects p cb \<Longrightarrow> cb \<in> set (listeners st q)"
  shows "waits st' s p"
proof -
  from assms(1) have "sole st s p"
    by (simp add: waits_def bound_def)
  then have "sole st' s p"
    using assms(2,3,7) by (rule sole_step)
  with assms(1,4,5,6) show ?thesis
    by (auto simp: waits_def bound_def)
qed

lemma run_waits:
  assumes "conf_ok e w st" and "waits st s p" and "\<forall>call \<in> set w. call_quiet s p call"
  shows "waits (run w st) s p \<or> rejected_by e (run w st) s p"
proof -
  from assms(2) have b: "bound st s p" and pend: "promises st ! p = Pending"
    by (simp_all add: waits_def)
  then have "sole (run w st) s p"
    by (simp add: bound_def sole_run)
  with pending_run [OF assms(1) b pend assms(3)] show ?thesis
    by (auto simp: waits_def bound_def rejected_by_def)
qed

lemma cancel_waits:
  assumes "well_formed st" and "waits st s p"
  shows "waits (CancelSignal_cancel c e st) s p \<or> rejected_by e (CancelSignal_cancel c e st) s p"
proof (cases "c < length (signals st)")
  case True
  with assms(1) have "conf_ok e [Cancel c e] st"
    by (simp add: conf_ok_def)
  then show ?thesis
    unfolding CancelSignal_cancel_def using assms(2) by (rule run_waits) simp
next
  case False
  then have "CancelSignal_cancel c e st = set_error c e st"
    by (simp add: CancelSignal_cancel_def)
  moreover have "waits (set_error c e st) s p"
    using assms(2) by (rule waits_grow) simp_all
  ultimately show ?thesis
    by simp
qed

lemma rejected_by_cancel:
  assumes "well_formed st" and "rejected_by e st s p"
  shows "rejected_by e (CancelSignal_cancel c e st) s p"
proof (cases "c < length (signals st)")
  case True
  with assms(1) have ok: "conf_ok e [Cancel c e] st"
    by (simp add: conf_ok_def)
  from assms(2) have "error_of st s = e"
    by (simp add: rejected_by_def)
  with ok have "error_of (run [Cancel c e] st) s = e"
    by (rule error_stays)
  with assms(2) show ?thesis
    unfolding CancelSignal_cancel_def rejected_by_def
    by (auto simp del: run.simps intro: sole_run aborted_run simp: settled_run)
next
  case False
  then have eq: "CancelSignal_cancel c e st = set_error c e st"
    by (simp add: CancelSignal_cancel_def)
  from assms(2) have "s < length (signals st)"
    by (simp add: rejected_by_def sole_def)
  with False have "c \<noteq> s"
    by auto
  with assms(2) show ?thesis
    unfolding eq rejected_by_def by (auto intro: sole_step [where st = st])
qed

lemma onCanceled_frame:
  assumes "set (cb_targets fn) \<subseteq> S" and "closed_under st S" and "x \<notin> S"
  shows "aborted (CancelSignal_onCanceled q fn st) x = aborted st x"
proof (cases "aborted st q")
  case True
  have "calls_in S [Invoke fn (ErrorArg (error_of st q))]"
    using assms(1) by (auto simp: calls_in_def)
  with assms(2) have "error_of (run [Invoke fn (ErrorArg (error_of st q))] st) x = error_of st x
      \<and> aborted (run [Invoke fn (ErrorArg (error_of st q))] st) x = aborted st x"
    using assms(3) by (rule run_frame)
  with True show ?thesis
    by (simp add: CancelSignal_onCanceled_def del: run.simps)
next
  case False
  then show ?thesis
    by (simp add: CancelSignal_onCanceled_def)
qed

lemma onCanceled_waits:
  assumes "well_formed st" and "fn_ok (length (signals st)) (length (promises st)) q fn"
    and "\<not> rejects p fn" and "set (cb_targets fn) \<subseteq> S" and "closed_under st S" and "s \<notin> S"
    and "waits st s p"
  shows "waits (CancelSignal_onCanceled q fn st) s p"
proof (cases "aborted st q")
  case True
  let ?e = "error_of st q"
  let ?st = "run [Invoke fn (ErrorArg ?e)] st"
  have "conf_ok ?e [Invoke fn (ErrorArg ?e)] st"
    using assms(1) fn_ok_carries [OF assms(2)] by (simp add: conf_ok_def)
  then have "waits ?st s p \<or> rejected_by ?e ?st s p"
    using assms(7) by (rule run_waits) (simp add: assms(3))
  moreover have "aborted (CancelSignal_onCanceled q fn st) s = aborted st s"
    using assms(4,5,6) by (rule onCanceled_frame)
  moreover have "\<not> aborted st s"
    using assms(7) by (simp add: waits_def bound_def)
  ultimately show ?thesis
    using True by (auto simp: CancelSignal_onCanceled_def rejected_by_def simp del: run.simps)
next
  case False
  from assms(7) have "q < length (signals st) \<or> \<not> q < length (signals st)"
    by simp
  have "waits (addEventListener q (OnCanceled q fn) st) s p"
    using assms(7) by (rule waits_grow) (use assms(3) in \<open>auto split: if_splits\<close>)
  with False show ?thesis
    by (simp add: CancelSignal_onCanceled_def)
qed

lemma sole_onCanceled:
  assumes "sole st s p" and "\<not> rejects p fn"
  shows "sole (CancelSignal_onCanceled q fn st) s p"
  using assms(1)
proof (rule sole_step)
  fix x cb
  assume "cb \<in> set (listeners (CancelSignal_onCanceled q fn st) x)" and r: "rejects p cb"
  then have "cb \<in> set (listeners st x) \<or> (cb = OnCanceled q fn \<and> x = q)"
    by (intro listeners_onCanceled)
  with r assms(2) show "cb \<in> set (listeners st x)"
    by auto
qed simp_all

lemma settled_onCanceled:
  "promises st ! p \<noteq> Pending \<Longrightarrow> promises (CancelSignal_onCanceled q fn st) ! p = promises st ! p"
  by (rule promises_onCanceled_settled)


lemma closed_under_empty [simp]: "closed_under st {}"
  by (simp add: closed_under_def)

lemma WithCancel_init_waits:
  assumes "well_formed st" and "ctx_in_store st parent" and "waits st s p"
  shows "waits (snd (WithCancel_init parent st)) s p"
proof -
  let ?n = "length (signals st)"
  let ?st1 = "snd (CancelSignal_new st)"
  have w1: "well_formed ?st1"
    using assms(1) by (rule well_formed_CancelSignal_new)
  have s: "s < ?n"
    using assms(3) by (simp add: waits_def bound_def sole_def)
  have 1: "waits ?st1 s p"
    using assms(3) by (rule waits_grow) simp_all
  show ?thesis
  proof (cases "ctx_done parent")
    case None
    with 1 show ?thesis
      by (simp add: WithCancel_init_def split_beta)
  next
    case (Some ps)
    with assms(2) have ps: "ps < ?n"
      by (simp add: ctx_in_store_def)
    let ?st2 = "CancelSignal_onCanceled ps (Handler ?n ps) ?st1"
    have w2: "well_formed ?st2"
      using w1 by (rule well_formed_onCanceled) (simp add: ps)
    have 2: "waits ?st2 s p"
      using w1
    proof (rule onCanceled_waits)
      show "fn_ok (length (signals ?st1)) (length (promises ?st1)) ps (Handler ?n ps)"
        by (simp add: ps)
      show "\<not> rejects p (Handler ?n ps)"
        by simp
      show "set (cb_targets (Handler ?n ps)) \<subseteq> {?n}"
        by simp
      show "closed_under ?st1 {?n}"
        by (simp add: closed_under_def)
      show "s \<notin> {?n}"
        using s by simp
    qed (rule 1)
    have "waits (CancelSignal_onCanceled ?n (RemoveHandler ps (Handler ?n ps)) ?st2) s p"
      using w2
    proof (rule onCanceled_waits)
      show "fn_ok (length (signals ?st2)) (length (promises ?st2)) ?n (RemoveHandler ps (Handler ?n ps))"
        by simp
      show "set (cb_targets (RemoveHandler ps (Handler ?n ps))) \<subseteq> {}"
        by simp
    qed (simp_all add: 2)
    with Some show ?thesis
      by (simp add: WithCancel_init_def split_beta)
  qed
qed

lemma derive_waits:
  assumes "well_formed st" and "ctx_in_store st parent" and "waits st s p"
  shows "waits (snd (derive k parent st)) s p"
proof -
  let ?st1 = "snd (WithCancel_init parent st)"
  have w1: "well_formed ?st1"
    using assms(1,2) by (rule well_formed_WithCancel_init)
  have 1: "waits ?st1 s p"
    using assms by (rule WithCancel_init_waits)
  show ?thesis
  proof (cases k)
    case CancelNode
    with 1 show ?thesis
      by (simp add: WithCancel_new_def split_beta)
  next
    case (TimeoutNode ms)
    let ?st2 = "snd (setTimeout (length (signals st)) ms ?st1)"
    have w2: "well_formed ?st2"
      using w1 by (rule well_formed_setTimeout)
    have 2: "waits ?st2 s p"
      using 1 by (rule waits_grow) simp_all
    have "waits (CancelSignal_onCanceled (length (signals st)) (ClearTimeout (length (timers st))) ?st2) s p"
      using w2
    proof (rule onCanceled_waits)
      show "set (cb_targets (ClearTimeout (length (timers st)))) \<subseteq> {}"
        by simp
    qed (simp_all add: 2)
    with TimeoutNode show ?thesis
      by (simp add: WithTimeout_new_def split_beta)
  qed
qed

lemma sole_WithCancel_init: "sole st s p \<Longrightarrow> sole (snd (WithCancel_init parent st)) s p"
proof -
  assume a: "sole st s p"
  have "sole (snd (CancelSignal_new st)) s p"
    using a by (rule sole_step) simp_all
  then show ?thesis
    by (simp add: WithCancel_init_def split_beta sole_onCanceled split: option.split)
qed

lemma sole_derive:
  assumes "sole st s p"
  shows "sole (snd (derive k parent st)) s p"
proof -
  let ?st1 = "snd (WithCancel_init parent st)"
  have 1: "sole ?st1 s p"
    using assms by (rule sole_WithCancel_init)
  have "sole (snd (setTimeout c ms ?st1)) s p" for c ms
    using 1 by (rule sole_step) simp_all
  with 1 show ?thesis
    by (cases k) (simp_all add: WithCancel_new_def WithTimeout_new_def split_beta sole_onCanceled)
qed

lemma settled_derive:
  assumes "promises st ! p \<noteq> Pending"
  shows "promises (snd (derive k parent st)) ! p = promises st ! p"
proof -
  have "promises (snd (WithCancel_init parent st)) ! p = promises st ! p"
    using assms
    by (simp add: WithCancel_init_def split_beta settled_onCanceled split: option.split)
  with assms show ?thesis
    by (cases k) (simp_all add: WithCancel_new_def WithTimeout_new_def split_beta settled_onCanceled)
qed

lemma fold_settle_other:
  "p \<noteq> p' \<Longrightarrow> promises (fold (promise_settle p') ex st) ! p = promises st ! p"
proof (induction ex arbitrary: st)
  case Nil
  show ?case by simp
next
  case (Cons a ex)
  then show ?case
    by (cases a) (simp_all add: promises_promise_resolve promises_promise_reject)
qed

lemma error_of_promises_update [simp]: "error_of (st\<lparr>promises := ps\<rparr>) x = error_of st x"
  by (simp add: error_of_def)

lemma error_of_fold_settle [simp]: "error_of (fold (promise_settle p) ex st) x = error_of st x"
proof (induction ex arbitrary: st)
  case Nil
  show ?case by simp
next
  case (Cons a ex)
  then show ?case by (cases a) simp_all
qed

lemma Promise_new_view:
  "length (signals (snd (Promise_new ex st))) = length (signals st)"
  "length (promises (snd (Promise_new ex st))) = Suc (length (promises st))"
  "aborted (snd (Promise_new ex st)) x = aborted st x"
  "listeners (snd (Promise_new ex st)) x = listeners st x"
  "p < length (promises st) \<Longrightarrow> promises (snd (Promise_new ex st)) ! p = promises st ! p"
  by (simp_all add: Promise_new_def fold_settle_other nth_append)

lemma ContextPromise_new_waits:
  assumes "well_formed st" and "waits st s p"
  shows "waits (snd (ContextPromise_new c ex st)) s p"
proof -
  let ?st1 = "snd (Promise_new ex st)"
  from assms(2) have p: "p < length (promises st)"
    by (simp add: waits_def bound_def sole_def)
  have w1: "well_formed ?st1"
    using assms(1) by (rule well_formed_step) (simp_all add: Promise_new_view)
  have 1: "waits ?st1 s p"
    using assms(2) by (rule waits_grow) (simp_all add: Promise_new_view p)
  show ?thesis
  proof (cases "ctx_done c")
    case None
    with 1 show ?thesis
      by (simp add: ContextPromise_new_def split_beta)
  next
    case (Some q)
    have "waits (CancelSignal_onCanceled q (Reject (length (promises st))) ?st1) s p"
      using w1
    proof (rule onCanceled_waits)
      show "fn_ok (length (signals ?st1)) (length (promises ?st1)) q (Reject (length (promises st)))"
        by (simp add: Promise_new_view)
      show "\<not> rejects p (Reject (length (promises st)))"
        using p by simp
      show "set (cb_targets (Reject (length (promises st)))) \<subseteq> {}"
        by simp
    qed (simp_all add: 1)
    with Some show ?thesis
      by (simp add: ContextPromise_new_def split_beta Promise_new_def)
  qed
qed

lemma sole_ContextPromise_new:
  assumes "sole st s p"
  shows "sole (snd (ContextPromise_new c ex st)) s p"
proof -
  from assms have p: "p < length (promises st)"
    by (simp add: sole_def)
  have 1: "sole (snd (Promise_new ex st)) s p"
    using assms by (rule sole_step) (simp_all add: Promise_new_view)
  have "sole (CancelSignal_onCanceled q (Reject (length (promises st))) (snd (Promise_new ex st))) s p" for q
    using 1 by (rule sole_onCanceled) (use p in simp)
  with 1 show ?thesis
    by (simp add: ContextPromise_new_def split_beta Promise_new_def split: option.split)
qed

lemma settled_ContextPromise_new:
  assumes "p < length (promises st)" and "promises st ! p \<noteq> Pending"
  shows "promises (snd (ContextPromise_new c ex st)) ! p = promises st ! p"
proof -
  have 1: "promises (snd (Promise_new ex st)) ! p = promises st ! p"
    using assms(1) by (simp add: Promise_new_view)
  with assms(2) have "promises (CancelSignal_onCanceled q fn (snd (Promise_new ex st))) ! p = promises st ! p"
    for q fn
    by (simp add: settled_onCanceled)
  with 1 show ?thesis
    by (simp add: ContextPromise_new_def split_beta Promise_new_def split: option.split)
qed


lemma rejected_by_same:
  assumes "rejected_by e st s p"
    and "length (promises st) \<le> length (promises st')"
    and "length (signals st) \<le> length (signals st')"
    and "promises st' ! p = promises st ! p"
    and "aborted st' s = aborted st s"
    and "error_of st' s = error_of st s"
    and "\<And>q cb. cb \<in> set (listeners st' q) \<Longrightarrow> rejects p cb \<Longrightarrow> cb \<in> set (listeners st q)"
  shows "rejected_by e st' s p"
proof -
  from assms(1) have "sole st s p"
    by (simp add: rejected_by_def)
  then have "sole st' s p"
    using assms(2,3,7) by (rule sole_step)
  with assms(1,4,5,6) show ?thesis
    by (simp add: rejected_by_def)
qed

lemma timer_fire_waits:
  assumes "well_formed st" and "waits st s p \<or> rejected_by (Some DeadlineExceeded) st s p"
  shows "waits (timer_fire t st) s p \<or> rejected_by (Some DeadlineExceeded) (timer_fire t st) s p"
proof (cases "t < length (timers st) \<and> timer_armed (timers st ! t)")
  case False
  with assms(2) show ?thesis
    by (auto simp: timer_fire_def)
next
  case True
  let ?st = "clearTimeout t st"
  let ?c = "timer_signal (timers st ! t)"
  have w: "well_formed ?st"
    using assms(1) by (rule well_formed_clearTimeout)
  from assms(2) have "waits (CancelSignal_cancel ?c (Some DeadlineExceeded) ?st) s p
      \<or> rejected_by (Some DeadlineExceeded) (CancelSignal_cancel ?c (Some DeadlineExceeded) ?st) s p"
  proof
    assume "waits st s p"
    then have "waits ?st s p"
      by (rule waits_grow) simp_all
    with w show ?thesis
      by (rule cancel_waits)
  next
    assume "rejected_by (Some DeadlineExceeded) st s p"
    then have "rejected_by (Some DeadlineExceeded) ?st s p"
      by (rule rejected_by_same) simp_all
    with w have "rejected_by (Some DeadlineExceeded) (CancelSignal_cancel ?c (Some DeadlineExceeded) ?st) s p"
      by (rule rejected_by_cancel)
    then show ?thesis ..
  qed
  with True show ?thesis
    by (simp add: timer_fire_def)
qed

lemma delay_waits:
  assumes "well_formed st" and "waits st s p"
  shows "waits (delay ms st) s p \<or> rejected_by (Some DeadlineExceeded) (delay ms st) s p"
proof -
  let ?e = "Some DeadlineExceeded"
  have "waits (fold timer_fire ts st1) s p \<or> rejected_by ?e (fold timer_fire ts st1) s p"
    if "well_formed st1" "waits st1 s p \<or> rejected_by ?e st1 s p" for ts st1
    using that
  proof (induction ts arbitrary: st1)
    case Nil
    then show ?case by simp
  next
    case (Cons t ts)
    have "well_formed (timer_fire t st1)"
      using Cons.prems(1) by (rule well_formed_timer_fire)
    moreover have "waits (timer_fire t st1) s p \<or> rejected_by ?e (timer_fire t st1) s p"
      using Cons.prems by (rule timer_fire_waits)
    ultimately show ?case
      using Cons.IH by simp
  qed
  from this [of st "due_timers st (clock st + ms)"] assms
  have "waits (fold timer_fire (due_timers st (clock st + ms)) st) s p
      \<or> rejected_by ?e (fold timer_fire (due_timers st (clock st + ms)) st) s p"
    by blast
  then show ?thesis
  proof
    assume "waits (fold timer_fire (due_timers st (clock st + ms)) st) s p"
    then have "waits (delay ms st) s p"
      unfolding delay_def by (rule waits_grow) simp_all
    then show ?thesis ..
  next
    assume "rejected_by ?e (fold timer_fire (due_timers st (clock st + ms)) st) s p"
    then have "rejected_by ?e (delay ms st) s p"
      unfolding delay_def by (rule rejected_by_same) simp_all
    then show ?thesis ..
  qed
qed

lemma sole_cancel: "sole st s p \<Longrightarrow> sole (CancelSignal_cancel c e st) s p"
  unfolding CancelSignal_cancel_def by (rule sole_run)

lemma sole_ctx_cancel: "sole st s p \<Longrightarrow> sole (ctx_cancel c st) s p"
  by (cases c) (simp_all add: sole_cancel)

lemma sole_timer_fire: "sole st s p \<Longrightarrow> sole (timer_fire t st) s p"
proof -
  assume a: "sole st s p"
  have "sole (clearTimeout t st) s p"
    using a by (rule sole_step) simp_all
  with a show ?thesis
    by (simp add: timer_fire_def sole_cancel)
qed

lemma sole_delay:
  assumes "sole st s p"
  shows "sole (delay ms st) s p"
proof -
  have "sole (fold timer_fire ts st1) s p" if "sole st1 s p" for ts st1
    using that by (induction ts arbitrary: st1) (simp_all add: sole_timer_fire)
  from this [OF assms, of "due_timers st (clock st + ms)"] show ?thesis
    unfolding delay_def by (rule sole_step) simp_all
qed

lemma settled_ctx_cancel:
  "promises st ! p \<noteq> Pending \<Longrightarrow> promises (ctx_cancel c st) ! p = promises st ! p"
  by (cases c) (simp_all add: CancelSignal_cancel_def settled_run del: run.simps)

lemma settled_timer_fire:
  "promises st ! p \<noteq> Pending \<Longrightarrow> promises (timer_fire t st) ! p = promises st ! p"
  by (simp add: timer_fire_def CancelSignal_cancel_def settled_run del: run.simps)

lemma settled_delay:
  assumes "promises st ! p \<noteq> Pending"
  shows "promises (delay ms st) ! p = promises st ! p"
proof -
  have "promises (fold timer_fire ts st1) ! p = promises st1 ! p" if "promises st1 ! p \<noteq> Pending" for ts st1
    using that by (induction ts arbitrary: st1) (simp_all add: settled_timer_fire)
  from this [OF assms] show ?thesis
    by (simp add: delay_def)
qed

lemma ctx_cancel_waits:
  assumes "well_formed st" and "waits st s p"
  shows "waits (ctx_cancel c st) s p \<or> rejected_by (Some Canceled) (ctx_cancel c st) s p"
  using assms by (cases c) (simp_all add: cancel_waits)


lemma step_sole:
  assumes "sole st s p"
  shows "sole (snd (step x (cs, st))) s p"
proof (cases x)
  case (NewValue i k v)
  with assms show ?thesis
    by (simp split: sum.split)
next
  case (NewCancel i)
  with assms sole_derive [OF assms, of CancelNode] show ?thesis
    by (simp add: split_beta)
next
  case (NewTimeout i ms)
  with assms sole_derive [OF assms, of "TimeoutNode ms"] show ?thesis
    by (simp add: split_beta)
next
  case (CallCancel i)
  with assms show ?thesis
    by (simp add: sole_ctx_cancel)
next
  case (Wait ms)
  with assms show ?thesis
    by (simp add: sole_delay)
next
  case (NewPromise i ex)
  with assms show ?thesis
    by (simp add: sole_ContextPromise_new)
next
  case (CallResolve q v)
  have "sole (promise_resolve q v st) s p"
    using assms by (rule sole_step) simp_all
  with CallResolve show ?thesis
    by simp
next
  case (CallReject q r)
  have "sole (promise_reject q (ValueArg r) st) s p"
    using assms by (rule sole_step) simp_all
  with CallReject show ?thesis
    by simp
qed

lemma step_settled:
  assumes "p < length (promises st)" and "promises st ! p \<noteq> Pending"
  shows "promises (snd (step x (cs, st))) ! p = promises st ! p"
proof (cases x)
  case (NewValue i k v)
  then show ?thesis
    by (simp split: sum.split)
next
  case (NewCancel i)
  with settled_derive [OF assms(2), of CancelNode] show ?thesis
    by (simp add: split_beta)
next
  case (NewTimeout i ms)
  with settled_derive [OF assms(2), of "TimeoutNode ms"] show ?thesis
    by (simp add: split_beta)
next
  case (CallCancel i)
  with assms(2) show ?thesis
    by (simp add: settled_ctx_cancel)
next
  case (Wait ms)
  with assms(2) show ?thesis
    by (simp add: settled_delay)
next
  case (NewPromise i ex)
  with assms show ?thesis
    by (simp add: settled_ContextPromise_new)
next
  case (CallResolve q v)
  with assms(2) show ?thesis
    by (simp add: settled_resolve)
next
  case (CallReject q r)
  with assms(2) show ?thesis
    by (simp add: settled_reject)
qed

lemma step_waits:
  assumes "world_ok (cs, st)" and "waits st s p"
    and "\<forall>v. x \<noteq> CallResolve p v" and "\<forall>r. x \<noteq> CallReject p r"
  shows "waits (snd (step x (cs, st))) s p \<or> (\<exists>e. rejected_by e (snd (step x (cs, st))) s p)"
proof -
  from assms(1) have w: "well_formed st"
    and inst: "\<And>i. i < length cs \<Longrightarrow> ctx_in_store st (cs ! i)"
    by (simp_all add: world_ok_def ctx_ok_in_store)
  show ?thesis
  proof (cases x)
    case (NewValue i k v)
    with assms(2) show ?thesis
      by (simp split: sum.split)
  next
    case (NewCancel i)
    show ?thesis
    proof (cases "i < length cs")
      case True
      with derive_waits [OF w inst [OF True] assms(2), of CancelNode] NewCancel show ?thesis
        by (simp add: split_beta)
    next
      case False
      with assms(2) NewCancel show ?thesis
        by simp
    qed
  next
    case (NewTimeout i ms)
    show ?thesis
    proof (cases "i < length cs")
      case True
      with derive_waits [OF w inst [OF True] assms(2), of "TimeoutNode ms"] NewTimeout show ?thesis
        by (simp add: split_beta)
    next
      case False
      with assms(2) NewTimeout show ?thesis
        by simp
    qed
  next
    case (CallCancel i)
    with ctx_cancel_waits [OF w assms(2), of "cs ! i"] assms(2) show ?thesis
      by auto
  next
    case (Wait ms)
    with delay_waits [OF w assms(2), of ms] show ?thesis
      by auto
  next
    case (NewPromise i ex)
    with ContextPromise_new_waits [OF w assms(2), of "cs ! i" ex] assms(2) show ?thesis
      by simp
  next
    case (CallResolve q v)
    with assms(3) have "q \<noteq> p"
      by auto
    then have "waits (promise_resolve q v st) s p"
      by (intro waits_grow [OF assms(2)]) (simp_all add: promises_promise_resolve)
    with CallResolve show ?thesis
      by simp
  next
    case (CallReject q r)
    with assms(4) have "q \<noteq> p"
      by auto
    then have "waits (promise_reject q (ValueArg r) st) s p"
      by (intro waits_grow [OF assms(2)]) (simp_all add: promises_promise_reject)
    with CallReject show ?thesis
      by simp
  qed
qed

lemma step_bound:
  assumes "world_ok (cs, st)" and "bound st s p"
  shows "bound (snd (step x (cs, st))) s p"
proof (cases "promises st ! p = Pending")
  case False
  from assms(2) have sole: "sole st s p"
    by (simp add: bound_def)
  then have "p < length (promises st)"
    by (simp add: sole_def)
  then have "promises (snd (step x (cs, st))) ! p = promises st ! p"
    using False by (rule step_settled)
  with False step_sole [OF sole, of x cs] show ?thesis
    by (simp add: bound_def)
next
  case True
  with assms(2) have wt: "waits st s p"
    by (simp add: waits_def)
  from assms(2) have sole: "sole st s p" and p: "p < length (promises st)"
    by (simp_all add: bound_def sole_def)
  show ?thesis
  proof (cases "(\<forall>v. x \<noteq> CallResolve p v) \<and> (\<forall>r. x \<noteq> CallReject p r)")
    case True
    with step_waits [OF assms(1) wt, of x] show ?thesis
      by (auto simp: waits_def rejected_by_def bound_def)
  next
    case False
    then consider v where "x = CallResolve p v" | r where "x = CallReject p r"
      by blast
    then have "promises (snd (step x (cs, st))) ! p \<noteq> Pending"
      using p \<open>promises st ! p = Pending\<close>
      by cases (simp_all add: promises_promise_resolve promises_promise_reject)
    with step_sole [OF sole, of x cs] show ?thesis
      by (simp add: bound_def)
  qed
qed

lemma fold_step_fst: "fst w = cs \<Longrightarrow> take (length cs) (fst (fold step xs w)) = cs"
proof (induction xs arbitrary: w cs)
  case Nil
  then show ?case by simp
next
  case (Cons x xs)
  obtain cs0 st0 where w: "w = (cs0, st0)"
    by (cases w)
  have "\<exists>ys. fst (step x (cs0, st0)) = cs0 @ ys"
    by (cases x) (auto simp: split_beta split: sum.split)
  then obtain ys where ys: "fst (step x w) = cs0 @ ys"
    using w by auto
  from Cons.IH [OF ys] have "take (length (cs0 @ ys)) (fst (fold step xs (step x w))) = cs0 @ ys" .
  then have "take (length cs0) (take (length (cs0 @ ys)) (fst (fold step xs (step x w)))) = cs0"
    by simp
  then have "take (length cs0) (fst (fold step xs (step x w))) = cs0"
    by (simp add: min_def)
  with Cons.prems w show ?case
    by simp
qed

lemma fold_bound:
  assumes "world_ok w" and "bound (snd w) s p"
  shows "world_ok (fold step xs w) \<and> bound (snd (fold step xs w)) s p"
  using assms
proof (induction xs arbitrary: w)
  case Nil
  then show ?case by simp
next
  case (Cons x xs)
  obtain cs st where w: "w = (cs, st)"
    by (cases w)
  have "world_ok (step x w)"
    using Cons.prems(1) by (rule world_ok_step)
  moreover have "bound (snd (step x w)) s p"
    using Cons.prems unfolding w by (simp add: step_bound del: step.simps)
  ultimately show ?case
    using Cons.IH by simp
qed


lemma fold_settled:
  "promises st ! p \<noteq> Pending \<Longrightarrow> promises (fold (promise_settle p') ex st) ! p = promises st ! p"
proof (induction ex arbitrary: st)
  case Nil
  show ?case by simp
next
  case (Cons a ex)
  then show ?case
    by (cases a) (simp_all add: settled_resolve settled_reject)
qed

lemma fold_settle_first:
  assumes "p < length (promises st)" and "promises st ! p = Pending"
  shows "promises (fold (promise_settle p) ex st) ! p
    = (case ex of [] \<Rightarrow> Pending | a # rest \<Rightarrow> settlement a)"
proof (cases ex)
  case Nil
  with assms show ?thesis by simp
next
  case (Cons a rest)
  have "promises (promise_settle p a st) ! p = settlement a"
    using assms by (cases a) (simp_all add: promises_promise_resolve promises_promise_reject)
  moreover have "settlement a \<noteq> Pending"
    by (cases a) simp_all
  ultimately have "promises (fold (promise_settle p) rest (promise_settle p a st)) ! p = settlement a"
    by (simp add: fold_settled)
  with Cons show ?thesis
    by simp
qed

lemma listener_rejects_old:
  assumes "well_formed st" and "cb \<in> set (listeners st q)" and "rejects p cb"
  shows "p < length (promises st)"
proof -
  from assms(1,2) have "listener_ok (length (signals st)) (length (promises st)) q cb"
    by (rule well_formedD)
  then obtain fn where cb: "cb = OnCanceled q fn" and fn: "fn_ok (length (signals st)) (length (promises st)) q fn"
    by (rule listener_okE)
  from fn assms(3) show ?thesis
    unfolding cb by (cases fn) simp_all
qed

lemma ContextPromise_new_bound:
  assumes "well_formed st" and "ctx_done ctx = Some s" and "s < length (signals st)"
  shows "fst (ContextPromise_new ctx ex st) = length (promises st)"
    and "bound (snd (ContextPromise_new ctx ex st)) s (length (promises st))"
    and "promises (snd (ContextPromise_new ctx ex st)) ! length (promises st)
      = (case ex of
           [] \<Rightarrow> if aborted st s then Rejected (ErrorArg (error_of st s)) else Pending
         | a # rest \<Rightarrow> settlement a)"
proof -
  let ?p = "length (promises st)"
  let ?st1 = "snd (Promise_new ex st)"
  let ?st2 = "CancelSignal_onCanceled s (Reject ?p) ?st1"
  have snd: "snd (ContextPromise_new ctx ex st) = ?st2"
    using assms(2) by (simp add: ContextPromise_new_def split_beta Promise_new_def)
  show "fst (ContextPromise_new ctx ex st) = ?p"
    by (simp add: ContextPromise_new_def split_beta Promise_new_def split: option.split)
  have first: "promises ?st1 ! ?p = (case ex of [] \<Rightarrow> Pending | a # rest \<Rightarrow> settlement a)"
    unfolding Promise_new_def snd_conv by (rule fold_settle_first) (simp_all add: nth_append)
  have len: "?p < length (promises ?st1)"
    by (simp add: Promise_new_view)
  have ab: "aborted ?st1 x = aborted st x" and err: "error_of ?st1 x = error_of st x" for x
    by (simp_all add: Promise_new_view Promise_new_def)
  have outcome: "promises ?st2 ! ?p
      = (case ex of
           [] \<Rightarrow> if aborted st s then Rejected (ErrorArg (error_of st s)) else Pending
         | a # rest \<Rightarrow> settlement a)"
  proof (cases "aborted st s")
    case True
    then have "?st2 = promise_reject ?p (ErrorArg (error_of st s)) ?st1"
      by (simp add: CancelSignal_onCanceled_def ab err)
    moreover have "settlement a \<noteq> Pending" for a
      by (cases a) simp_all
    ultimately show ?thesis
      using first len True by (auto simp: promises_promise_reject split: list.split)
  next
    case False
    then have "?st2 = addEventListener s (OnCanceled s (Reject ?p)) ?st1"
      by (simp add: CancelSignal_onCanceled_def ab)
    with first False show ?thesis
      by simp
  qed
  then show "promises (snd (ContextPromise_new ctx ex st)) ! ?p
      = (case ex of
           [] \<Rightarrow> if aborted st s then Rejected (ErrorArg (error_of st s)) else Pending
         | a # rest \<Rightarrow> settlement a)"
    by (simp add: snd)
  have sole: "sole ?st2 s ?p"
    unfolding sole_iff
  proof (intro conjI allI impI)
    show "?p < length (promises ?st2)"
      by (simp add: Promise_new_view)
    show "s < length (signals ?st2)"
      using assms(3) by (simp add: Promise_new_view)
    fix q cb
    assume cb: "cb \<in> set (listeners ?st2 q)" and r: "rejects ?p cb"
    from cb have "cb \<in> set (listeners ?st1 q) \<or> (cb = OnCanceled s (Reject ?p) \<and> q = s)"
      by (rule listeners_onCanceled)
    then show "q = s"
    proof
      assume "cb \<in> set (listeners ?st1 q)"
      then have "cb \<in> set (listeners st q)"
        by (simp add: Promise_new_view)
      with assms(1) have "?p < length (promises st)"
        using r by (rule listener_rejects_old)
      then show ?thesis
        by simp
    qed simp
  qed
  have "\<not> aborted ?st2 s \<and> OnCanceled s (Reject ?p) \<in> set (listeners ?st2 s)"
    if "promises ?st2 ! ?p = Pending"
  proof -
    have "settlement a \<noteq> Pending" for a
      by (cases a) simp_all
    with that outcome have un: "\<not> aborted st s"
      by (auto split: list.splits if_splits)
    then have "?st2 = addEventListener s (OnCanceled s (Reject ?p)) ?st1"
      by (simp add: CancelSignal_onCanceled_def ab)
    with un assms(3) show ?thesis
      by (simp add: ab Promise_new_view)
  qed
  with sole show "bound (snd (ContextPromise_new ctx ex st)) s ?p"
    by (simp add: bound_def snd)
qed

lemma promise_trace:
  assumes "exec ops = (cs, st)" and "i < length cs" and "ctx_done (cs ! i) = Some s"
    and "ContextPromise_new (cs ! i) ex st = (p, st0)"
    and "fold step later (cs, st0) = (cs1, st1)"
    and "step x (cs1, st1) = (cs2, st2)"
  shows "promises st0 ! p
      = (case ex of
           [] \<Rightarrow> if aborted st s then Rejected (ErrorArg (ctx_error st (cs ! i))) else Pending
         | a # rest \<Rightarrow> settlement a)
    \<and> (promises st1 ! p = Pending \<longrightarrow> \<not> aborted st1 s)
    \<and> (promises st1 ! p \<noteq> Pending \<longrightarrow> promises st2 ! p = promises st1 ! p)
    \<and> (promises st1 ! p = Pending \<longrightarrow>
          (\<forall>v. x = CallResolve p v \<longrightarrow> promises st2 ! p = Fulfilled v)
        \<and> (\<forall>r. x = CallReject p r \<longrightarrow> promises st2 ! p = Rejected (ValueArg r))
        \<and> ((\<forall>v. x \<noteq> CallResolve p v) \<and> (\<forall>r. x \<noteq> CallReject p r) \<longrightarrow>
              (if aborted st2 s then promises st2 ! p = Rejected (ErrorArg (ctx_error st2 (cs ! i)))
               else promises st2 ! p = Pending)))"
proof -
  note world = exec_world [OF assms(1)]
  have s: "s < length (signals st)"
    using ctx_ok_in_store [OF world(2) [OF assms(2)]] assms(3) by (simp add: ctx_in_store_def)
  note new = ContextPromise_new_bound [OF world(1) assms(3) s, of ex]
  from new(1) assms(4) have p: "p = length (promises st)" and st0: "st0 = snd (ContextPromise_new (cs ! i) ex st)"
    by simp_all
  have err: "ctx_error st' (cs ! i) = error_of st' s" for st'
    using assms(3) by (rule ctx_error_done)
  have made: "exec (ops @ [NewPromise i ex]) = (cs, st0)"
    using assms(1,2) by (simp add: exec_snoc st0)
  have "world_ok (cs, st0)"
    using world_ok_exec [of "ops @ [NewPromise i ex]"] by (simp add: made)
  moreover have "bound (snd (cs, st0)) s p"
    using new(2) by (simp add: p st0)
  ultimately have "world_ok (fold step later (cs, st0)) \<and> bound (snd (fold step later (cs, st0))) s p"
    by (rule fold_bound)
  then have w1: "world_ok (cs1, st1)" and b1: "bound st1 s p"
    by (simp_all add: assms(5))
  from b1 have sole: "sole st1 s p" and len: "p < length (promises st1)"
    by (simp_all add: bound_def sole_def)
  have st2: "st2 = snd (step x (cs1, st1))"
    by (simp add: assms(6))
  have a: "promises st0 ! p
      = (case ex of
           [] \<Rightarrow> if aborted st s then Rejected (ErrorArg (ctx_error st (cs ! i))) else Pending
         | a # rest \<Rightarrow> settlement a)"
    using new(3) unfolding p st0 err [symmetric] .
  have b: "\<not> aborted st1 s" if "promises st1 ! p = Pending"
    using b1 that by (simp add: bound_def)
  have c: "promises st2 ! p = promises st1 ! p" if "promises st1 ! p \<noteq> Pending"
    unfolding st2 using len that by (rule step_settled)
  have d1: "promises st2 ! p = Fulfilled v" if "promises st1 ! p = Pending" "x = CallResolve p v" for v
    using that len by (simp add: st2 promises_promise_resolve)
  have d2: "promises st2 ! p = Rejected (ValueArg r)" if "promises st1 ! p = Pending" "x = CallReject p r" for r
    using that len by (simp add: st2 promises_promise_reject)
  have d3: "if aborted st2 s then promises st2 ! p = Rejected (ErrorArg (ctx_error st2 (cs ! i)))
      else promises st2 ! p = Pending"
    if "promises st1 ! p = Pending" "\<forall>v. x \<noteq> CallResolve p v" "\<forall>r. x \<noteq> CallReject p r"
  proof -
    from b1 that(1) have "waits st1 s p"
      by (simp add: waits_def)
    with w1 have "waits st2 s p \<or> (\<exists>e. rejected_by e st2 s p)"
      unfolding st2 using that(2,3) by (rule step_waits)
    then show ?thesis
      by (auto simp: waits_def bound_def rejected_by_def err)
  qed
  from a b c d1 d2 d3 show ?thesis
    by blast
qed

lemma exec_promise:
  assumes "exec ops = (cs, st)" and "i < length cs"
  shows "exec (ops @ NewPromise i ex # later) = fold step later (cs, snd (ContextPromise_new (cs ! i) ex st))"
  using assms by (simp add: exec_def)

text \<open>
  C7: after any program, a \<open>ContextPromise\<close> is made for one of the contexts made, with
  the signal \<open>s\<close>; the constructor returns the promise \<open>p\<close>. When the constructor
  returns, the promise has the first settlement of the executor, if the executor
  settled it; otherwise it is rejected with the recorded cause if the signal had fired
  already, and pending if not. The program then goes on, by any operations. A pending
  promise means the signal has not fired. A settled promise is left as it is by every
  further operation. From a pending promise, \<open>resolve\<close> fulfils it, \<open>reject\<close> rejects it
  with the given reason, and any other operation either fires the signal (by \<open>cancel()\<close>
  on the node or on an ancestor, or by a deadline) and leaves the promise rejected with
  the cause that \<open>error()\<close> of the context returns, or leaves the signal unfired and the
  promise pending.
\<close>

theorem C7_promise_follows_context:
  assumes "exec ops = (cs, st)" and "i < length cs" and "ctx_done (cs ! i) = Some s"
    and "ContextPromise_new (cs ! i) ex st = (p, st0)"
    and "exec (ops @ NewPromise i ex # later) = (cs1, st1)"
    and "exec (ops @ NewPromise i ex # later @ [x]) = (cs2, st2)"
  shows "promises st0 ! p
      = (case ex of
           [] \<Rightarrow> if aborted st s then Rejected (ErrorArg (ctx_error st (cs ! i))) else Pending
         | a # rest \<Rightarrow> settlement a)
    \<and> (promises st1 ! p = Pending \<longrightarrow> \<not> aborted st1 s)
    \<and> (promises st1 ! p \<noteq> Pending \<longrightarrow> promises st2 ! p = promises st1 ! p)
    \<and> (promises st1 ! p = Pending \<longrightarrow>
          (\<forall>v. x = CallResolve p v \<longrightarrow> promises st2 ! p = Fulfilled v)
        \<and> (\<forall>r. x = CallReject p r \<longrightarrow> promises st2 ! p = Rejected (ValueArg r))
        \<and> ((\<forall>v. x \<noteq> CallResolve p v) \<and> (\<forall>r. x \<noteq> CallReject p r) \<longrightarrow>
              (if aborted st2 s then promises st2 ! p = Rejected (ErrorArg (ctx_error st2 (cs ! i)))
               else promises st2 ! p = Pending)))"
proof -
  from assms(4) have st0: "st0 = snd (ContextPromise_new (cs ! i) ex st)"
    by simp
  have 1: "fold step later (cs, st0) = (cs1, st1)"
    using exec_promise [OF assms(1,2), of ex later] assms(5) by (simp add: st0)
  have "exec ((ops @ NewPromise i ex # later) @ [x]) = step x (cs1, st1)"
    unfolding exec_snoc assms(5) ..
  with assms(6) have 2: "step x (cs1, st1) = (cs2, st2)"
    by simp
  from assms(1-4) 1 2 show ?thesis
    by (rule promise_trace)
qed

theorem C7_promise_follows_context_witness:
  "promises (snd (exec (lone @ NewPromise 1 [] # [NewCancel 1, Wait 3]))) ! 0 = Pending
   \<and> promises (snd (exec (lone @ NewPromise 1 [] # [NewCancel 1, Wait 3] @ [CallCancel 1]))) ! 0
       = Rejected (ErrorArg (Some Canceled))
   \<and> promises (snd (exec (timed @ NewPromise 2 [] # []))) ! 0 = Pending
   \<and> promises (snd (exec (timed @ NewPromise 2 [] # [] @ [Wait 10]))) ! 0
       = Rejected (ErrorArg (Some DeadlineExceeded))
   \<and> promises (snd (exec (lone @ NewPromise 1 [RejectWith (JString ''no'')] # []))) ! 0
       = Rejected (ValueArg (JString ''no''))
   \<and> promises (snd (exec (lone @ NewPromise 1 [RejectWith (JString ''no'')] # [] @ [CallCancel 1]))) ! 0
       = Rejected (ValueArg (JString ''no''))"
proof -
  have pair: "w = (fst w, snd w)" for w :: "Context list \<times> state"
    by simp
  have new: "ContextPromise_new c ex st = (length (promises st), snd (ContextPromise_new c ex st))" for c ex st
    by (simp add: ContextPromise_new_def split_beta Promise_new_def split: option.split)
  have i1: "1 < length (fst (exec lone))" and d1: "ctx_done (fst (exec lone) ! 1) = Some 0"
    and p1: "length (promises (snd (exec lone))) = 0"
    and i2: "2 < length (fst (exec timed))" and d2: "ctx_done (fst (exec timed) ! 2) = Some 1"
    and p2: "length (promises (snd (exec timed))) = 0"
    by code_simp+
  have pend1: "promises (snd (exec (lone @ NewPromise 1 [] # [NewCancel 1, Wait 3]))) ! 0 = Pending"
    and fired1: "aborted (snd (exec (lone @ NewPromise 1 [] # [NewCancel 1, Wait 3] @ [CallCancel 1]))) 0"
    and cause1: "ctx_error (snd (exec (lone @ NewPromise 1 [] # [NewCancel 1, Wait 3] @ [CallCancel 1])))
        (fst (exec lone) ! 1) = Some Canceled"
    and pend2: "promises (snd (exec (timed @ NewPromise 2 [] # []))) ! 0 = Pending"
    and fired2: "aborted (snd (exec (timed @ NewPromise 2 [] # [] @ [Wait 10]))) 1"
    and cause2: "ctx_error (snd (exec (timed @ NewPromise 2 [] # [] @ [Wait 10]))) (fst (exec timed) ! 2)
        = Some DeadlineExceeded"
    and sync: "promises (snd (exec (lone @ NewPromise 1 [RejectWith (JString ''no'')] # []))) ! 0
        = Rejected (ValueArg (JString ''no''))"
    by code_simp+
  note a = C7_promise_follows_context [OF pair [of "exec lone"] i1 d1 new [of _ "[]"]
      pair [of "exec (lone @ NewPromise 1 [] # [NewCancel 1, Wait 3])"]
      pair [of "exec (lone @ NewPromise 1 [] # [NewCancel 1, Wait 3] @ [CallCancel 1])"], unfolded p1]
  note b = C7_promise_follows_context [OF pair [of "exec timed"] i2 d2 new [of _ "[]"]
      pair [of "exec (timed @ NewPromise 2 [] # [])"]
      pair [of "exec (timed @ NewPromise 2 [] # [] @ [Wait 10])"], unfolded p2]
  note c = C7_promise_follows_context [OF pair [of "exec lone"] i1 d1 new [of _ "[RejectWith (JString ''no'')]"]
      pair [of "exec (lone @ NewPromise 1 [RejectWith (JString ''no'')] # [])"]
      pair [of "exec (lone @ NewPromise 1 [RejectWith (JString ''no'')] # [] @ [CallCancel 1])"], unfolded p1]
  from a pend1 fired1 cause1
  have 1: "promises (snd (exec (lone @ NewPromise 1 [] # [NewCancel 1, Wait 3] @ [CallCancel 1]))) ! 0
      = Rejected (ErrorArg (Some Canceled))"
    by simp
  from b pend2 fired2 cause2
  have 2: "promises (snd (exec (timed @ NewPromise 2 [] # [] @ [Wait 10]))) ! 0
      = Rejected (ErrorArg (Some DeadlineExceeded))"
    by simp
  from c sync
  have 3: "promises (snd (exec (lone @ NewPromise 1 [RejectWith (JString ''no'')] # [] @ [CallCancel 1]))) ! 0
      = Rejected (ValueArg (JString ''no''))"
    by simp
  from pend1 1 pend2 2 sync 3 show ?thesis
    by simp
qed

section \<open>Parent and siblings\<close>

text \<open>
  C8: after any program, let \<open>cs ! i\<close> be a \<open>WithCancel\<close> or \<open>WithTimeout\<close> node it made
  below \<open>parent\<close>. A call of \<open>cancel()\<close> on the node makes its \<open>error()\<close> \<open>Canceled\<close> and
  leaves the parent as it was: \<open>error()\<close> of the parent returns what it returned
  before, and its signal has fired only if it had before. The same holds of every
  other node made below the same parent, of every context made that is neither the
  node nor one of its descendants, and of every signal that is not the node's own or
  reached from it through registered handlers.
\<close>

theorem C8_cancel_leaves_parent_and_siblings:
  assumes "exec ops = (cs, st)" and "i < length cs"
    and "cs ! i = WithCancel parent sc \<or> cs ! i = WithTimeout parent sc"
  shows "ctx_error (ctx_cancel (cs ! i) st) (cs ! i) = Some Canceled
    \<and> ctx_error (ctx_cancel (cs ! i) st) parent = ctx_error st parent
    \<and> fired (ctx_cancel (cs ! i) st) parent = fired st parent
    \<and> (\<forall>j < length cs. j \<noteq> i \<and> node_parent (cs ! j) = Some parent \<longrightarrow>
          ctx_error (ctx_cancel (cs ! i) st) (cs ! j) = ctx_error st (cs ! j)
          \<and> fired (ctx_cancel (cs ! i) st) (cs ! j) = fired st (cs ! j))
    \<and> (\<forall>y \<in> set cs. \<not> below (cs ! i) y \<longrightarrow>
          ctx_error (ctx_cancel (cs ! i) st) y = ctx_error st y
          \<and> fired (ctx_cancel (cs ! i) st) y = fired st y)
    \<and> (\<forall>x. x \<notin> reach st sc \<longrightarrow>
          error_of (ctx_cancel (cs ! i) st) x = error_of st x
          \<and> aborted (ctx_cancel (cs ! i) st) x = aborted st x)"
proof -
  let ?c = "cs ! i"
  let ?st = "ctx_cancel ?c st"
  note world = exec_world [OF assms(1)]
  have mem: "?c \<in> set cs"
    using assms(2) by simp
  have own: "own_signal ?c = Some sc" and par: "ctx_parent ?c = Some parent"
    and cancel: "?st = CancelSignal_cancel sc (Some Canceled) st"
    using assms(3) by auto
  have "node_ok st parent sc"
    using world(4) [OF mem] assms(3) by auto
  then have "sc < length (signals st)"
    by (simp add: node_ok_iff)
  with world(1) have self: "ctx_error ?st ?c = Some Canceled"
    using assms(3) by (auto simp: cancel_sets_error)
  have frame: "ctx_error ?st y = ctx_error st y \<and> fired ?st y = fired st y"
    if "y \<in> set cs" "\<not> below ?c y" for y
    using assms(1) mem own that by (rule cancel_not_below)
  have pmem: "parent \<in> set cs"
    using exec_tidy(2) [OF assms(1)] mem par by (rule parents_madeD)
  have pnot: "\<not> below ?c parent"
    using par by (rule not_below_parent)
  have sib: "ctx_error ?st (cs ! j) = ctx_error st (cs ! j) \<and> fired ?st (cs ! j) = fired st (cs ! j)"
    if "j < length cs" "j \<noteq> i" "node_parent (cs ! j) = Some parent" for j
  proof (rule frame)
    show "cs ! j \<in> set cs"
      using that(1) by simp
    from that(3) obtain sy where y: "cs ! j = WithCancel parent sy \<or> cs ! j = WithTimeout parent sy"
      by (rule node_parentE)
    have "?c \<noteq> cs ! j"
    proof
      assume eq: "?c = cs ! j"
      with own have "own_signal (cs ! i) = own_signal (cs ! j)" "own_signal (cs ! i) \<noteq> None"
        by simp_all
      with world(3) [OF assms(2) that(1)] that(2) show False
        by simp
    qed
    with y pnot show "\<not> below ?c (cs ! j)"
      by auto
  qed
  have rest: "error_of ?st x = error_of st x \<and> aborted ?st x = aborted st x" if "x \<notin> reach st sc" for x
    unfolding cancel using that by (simp add: cancel_frame)
  from self frame [OF pmem pnot] sib frame rest show ?thesis
    by blast
qed

theorem C8_cancel_leaves_parent_and_siblings_witness:
  "fst (exec family) ! 1 = WithCancel Background 0
   \<and> fst (exec family) ! 2 = WithCancel (WithCancel Background 0) 1
   \<and> fst (exec family) ! 3 = WithTimeout (WithCancel Background 0) 2
   \<and> fst (exec family) ! 4 = WithCancel (WithCancel (WithCancel Background 0) 1) 3
   \<and> ctx_error (ctx_cancel (fst (exec family) ! 2) (snd (exec family))) (fst (exec family) ! 2) = Some Canceled
   \<and> ctx_error (ctx_cancel (fst (exec family) ! 2) (snd (exec family))) (fst (exec family) ! 1) = None
   \<and> \<not> fired (ctx_cancel (fst (exec family) ! 2) (snd (exec family))) (fst (exec family) ! 1)
   \<and> ctx_error (ctx_cancel (fst (exec family) ! 2) (snd (exec family))) (fst (exec family) ! 3) = None
   \<and> \<not> fired (ctx_cancel (fst (exec family) ! 2) (snd (exec family))) (fst (exec family) ! 3)
   \<and> fired (ctx_cancel (fst (exec family) ! 2) (snd (exec family))) (fst (exec family) ! 4)
   \<and> fst (exec pair) ! 2 = WithCancel (WithCancel Background 0) 1
   \<and> ctx_error (ctx_cancel (fst (exec pair) ! 2) (snd (exec pair))) (fst (exec pair) ! 2) = Some Canceled
   \<and> ctx_error (ctx_cancel (fst (exec pair) ! 2) (snd (exec pair))) (WithCancel Background 0) = None
   \<and> \<not> fired (ctx_cancel (fst (exec pair) ! 2) (snd (exec pair))) (WithCancel Background 0)"
proof -
  let ?p = "WithCancel Background 0"
  have run: "exec family = (fst (exec family), snd (exec family))"
    and run2: "exec pair = (fst (exec pair), snd (exec pair))"
    by simp_all
  have len: "2 < length (fst (exec family))" "3 < length (fst (exec family))"
    and p: "fst (exec family) ! 1 = ?p"
    and c: "fst (exec family) ! 2 = WithCancel ?p 1"
    and y: "fst (exec family) ! 3 = WithTimeout ?p 2"
    and g: "fst (exec family) ! 4 = WithCancel (WithCancel ?p 1) 3"
    and before: "ctx_error (snd (exec family)) ?p = None" "\<not> fired (snd (exec family)) ?p"
      "ctx_error (snd (exec family)) (WithTimeout ?p 2) = None"
      "\<not> fired (snd (exec family)) (WithTimeout ?p 2)"
    and grandchild: "fired (ctx_cancel (WithCancel ?p 1) (snd (exec family))) (WithCancel (WithCancel ?p 1) 3)"
    by code_simp+
  have len2: "2 < length (fst (exec pair))"
    and c2: "fst (exec pair) ! 2 = WithCancel ?p 1"
    and before2: "ctx_error (snd (exec pair)) ?p = None" "\<not> fired (snd (exec pair)) ?p"
    by code_simp+
  have sib: "(3::nat) \<noteq> 2 \<and> node_parent (fst (exec family) ! 3) = Some ?p"
    by (simp add: y)
  from C8_cancel_leaves_parent_and_siblings [OF run len(1), of ?p 1] sib len(2)
  have "ctx_error (ctx_cancel (fst (exec family) ! 2) (snd (exec family))) (fst (exec family) ! 2) = Some Canceled
    \<and> ctx_error (ctx_cancel (fst (exec family) ! 2) (snd (exec family))) ?p = ctx_error (snd (exec family)) ?p
    \<and> fired (ctx_cancel (fst (exec family) ! 2) (snd (exec family))) ?p = fired (snd (exec family)) ?p
    \<and> ctx_error (ctx_cancel (fst (exec family) ! 2) (snd (exec family))) (fst (exec family) ! 3)
        = ctx_error (snd (exec family)) (fst (exec family) ! 3)
    \<and> fired (ctx_cancel (fst (exec family) ! 2) (snd (exec family))) (fst (exec family) ! 3)
        = fired (snd (exec family)) (fst (exec family) ! 3)"
    using c by blast
  moreover from C8_cancel_leaves_parent_and_siblings [OF run2 len2, of ?p 1]
  have "ctx_error (ctx_cancel (fst (exec pair) ! 2) (snd (exec pair))) (fst (exec pair) ! 2) = Some Canceled
    \<and> ctx_error (ctx_cancel (fst (exec pair) ! 2) (snd (exec pair))) ?p = ctx_error (snd (exec pair)) ?p
    \<and> fired (ctx_cancel (fst (exec pair) ! 2) (snd (exec pair))) ?p = fired (snd (exec pair)) ?p"
    using c2 by blast
  ultimately show ?thesis
    using p c y g before grandchild c2 before2 by simp
qed

end
